theory Spec2Isabelle
  imports Complex_Main "HOL-Library.AList"
begin

section \<open>Values of lean query results\<close>

text \<open>
  A lean document is a tree of plain JavaScript values. Objects keep their own fields in
  insertion order, so they are association lists; a read takes the first entry of a key
  (\<open>map_of\<close>), a write replaces it in place or appends a new entry (\<open>AList.update\<close>),
  \<open>delete\<close> removes the key (\<open>AList.delete\<close>). \<open>ObjectId h\<close> is a
  \<open>mongoose.Types.ObjectId\<close> whose \<open>toHexString()\<close> and \<open>toString()\<close> both give the
  string \<open>h\<close>. Numbers are the rationals and \<open>NaN\<close>. The order JavaScript gives to
  keys that look like array indices is not modelled.
\<close>

datatype jsval =
    Undef
  | Null
  | Bool bool
  | Num rat
  | NaN
  | Str string
  | ObjectId string
  | Obj "(string \<times> jsval) list"
  | Arr "jsval list"

text \<open>
  The exceptions: the TypeError of the language (a property read on \<open>null\<close> or
  \<open>undefined\<close>, a call of what is not a function), and any other exception, thrown inside
  a method of the runtime and named by its class.
\<close>

datatype error = TypeError | Thrown string

text \<open>An effectful step gives the state it leaves behind and the exception it raised, if any.\<close>

type_synonym 'a outcome = "'a \<times> error option"

text \<open>\<open>!v\<close> is \<open>\<not> truthy v\<close>.\<close>

fun truthy :: "jsval \<Rightarrow> bool" where
  "truthy Undef = False"
| "truthy Null = False"
| "truthy (Bool b) = b"
| "truthy (Num q) = (q \<noteq> 0)"
| "truthy NaN = False"
| "truthy (Str s) = (s \<noteq> [])"
| "truthy (ObjectId h) = True"
| "truthy (Obj fs) = True"
| "truthy (Arr xs) = True"

fun typeof :: "jsval \<Rightarrow> string" where
  "typeof Undef = ''undefined''"
| "typeof Null = ''object''"
| "typeof (Bool b) = ''boolean''"
| "typeof (Num q) = ''number''"
| "typeof NaN = ''number''"
| "typeof (Str s) = ''string''"
| "typeof (ObjectId h) = ''object''"
| "typeof (Obj fs) = ''object''"
| "typeof (Arr xs) = ''object''"

subsection \<open>Property reads and the prototype chain\<close>

text \<open>
  The properties every plain object inherits from \<open>Object.prototype\<close>.
\<close>

definition object_prototype_names :: "string list" where
  "object_prototype_names =
     [''constructor'', ''__defineGetter__'', ''__defineSetter__'', ''hasOwnProperty'',
      ''__lookupGetter__'', ''__lookupSetter__'', ''isPrototypeOf'', ''propertyIsEnumerable'',
      ''toString'', ''valueOf'', ''__proto__'', ''toLocaleString'']"

text \<open>
  What \<open>v[key]\<close> gives. On \<open>null\<close> and \<open>undefined\<close> the read raises a TypeError. On a plain
  object it gives the own field of that name; without one, \<open>undefined\<close>, unless the name is
  inherited from \<open>Object.prototype\<close>. An inherited property, and every property of a value
  that is not a plain object (a string, a number, a boolean, an ObjectId, whose \<open>__proto__\<close>
  is \<open>ObjectId.prototype\<close>), is a value of the runtime and no part of the document: the
  read is \<open>Outside\<close> the data.
\<close>

datatype lookup = Raises error | Data jsval | Outside

fun get_prop :: "jsval \<Rightarrow> string \<Rightarrow> lookup" where
  "get_prop Undef key = Raises TypeError"
| "get_prop Null key = Raises TypeError"
| "get_prop (Obj fs) key =
     (case map_of fs key of
        Some v \<Rightarrow> Data v
      | None \<Rightarrow> if key \<in> set object_prototype_names then Outside else Data Undef)"
| "get_prop v key = Outside"

text \<open>
  The runtime says what becomes of a traversal that leaves the data: \<open>rt current key rest\<close>
  is the exception raised, if any, when \<open>recurse\<close> reads the property \<open>key\<close> of \<open>current\<close>
  outside the data and goes on with the segments \<open>rest\<close> (at the last segment through the
  guards and the call of \<open>toHexString\<close>, before it into the value read). Such a traversal
  is taken to leave the document as it is: no value of the runtime reached this way is an
  identifier that converts. Every property below is proved for every runtime.
\<close>

type_synonym runtime = "jsval \<Rightarrow> string \<Rightarrow> string list \<Rightarrow> error option"

text \<open>
  \<open>typeof v.toHexString === "function"\<close> for a value \<open>v\<close> of the document: the read raises
  on \<open>null\<close> and \<open>undefined\<close>; an ObjectId has the method, a plain object and an array do
  not (no field of a document holds a function).
\<close>

fun has_toHexString :: "jsval \<Rightarrow> error + bool" where
  "has_toHexString Undef = Inl TypeError"
| "has_toHexString Null = Inl TypeError"
| "has_toHexString (ObjectId h) = Inr True"
| "has_toHexString v = Inr False"

text \<open>\<open>v.toHexString()\<close>: calling what is not a function raises a TypeError.\<close>

fun toHexString :: "jsval \<Rightarrow> error + jsval" where
  "toHexString (ObjectId h) = Inr (Str h)"
| "toHexString v = Inl TypeError"

text \<open>
  \<open>doc[key] = w\<close> on a plain object. \<open>__proto__\<close> is an accessor of \<open>Object.prototype\<close>:
  unless the object has an own field of that name, the assignment calls the inherited
  setter, which makes no field (it ignores a primitive \<open>w\<close>, and takes an object or \<open>null\<close>
  as the prototype, which is no field either). Every other name is written as an own field.
\<close>

definition assign :: "(string \<times> jsval) list \<Rightarrow> string \<Rightarrow> jsval \<Rightarrow> (string \<times> jsval) list" where
  "assign fs key w =
     (if key = ''__proto__'' \<and> map_of fs key = None then fs else AList.update key w fs)"

text \<open>
  \<open>v[key] = w\<close>: raises on \<open>null\<close> and \<open>undefined\<close>, is ignored on a primitive (the modules
  are not in strict mode). Fields added to an array or an ObjectId are not represented;
  \<open>recurse\<close> writes to plain objects only.
\<close>

fun set_prop :: "jsval \<Rightarrow> string \<Rightarrow> jsval \<Rightarrow> jsval outcome" where
  "set_prop Undef key w = (Undef, Some TypeError)"
| "set_prop Null key w = (Null, Some TypeError)"
| "set_prop (Obj fs) key w = (Obj (assign fs key w), None)"
| "set_prop v key w = (v, None)"

text \<open>
  The object stored under \<open>key\<close> was mutated in place and is now \<open>w\<close>: seen from its parent,
  the entry of \<open>key\<close>, when there is one, holds the mutated value.
\<close>

fun mutated_child :: "jsval \<Rightarrow> string \<Rightarrow> jsval \<Rightarrow> jsval" where
  "mutated_child (Obj fs) key w = Obj (AList.map_entry key (\<lambda>_. w) fs)"
| "mutated_child v key w = v"

text \<open>\<open>for (const x of xs) f(x)\<close>, each \<open>x\<close> mutated in place; an exception ends the loop.\<close>

fun for_of :: "('a \<Rightarrow> 'a outcome) \<Rightarrow> 'a list \<Rightarrow> 'a list outcome" where
  "for_of f [] = ([], None)"
| "for_of f (x # xs) =
     (case f x of
        (x', Some e) \<Rightarrow> (x' # xs, Some e)
      | (x', None) \<Rightarrow> (case for_of f xs of (xs', r) \<Rightarrow> (x' # xs', r)))"

lemma for_of_cong [fundef_cong]:
  "xs = ys \<Longrightarrow> (\<And>x. x \<in> set ys \<Longrightarrow> f x = g x) \<Longrightarrow> for_of f xs = for_of g ys"
  by (induction ys arbitrary: xs) (auto split: prod.splits option.splits)

section \<open>The path rewriter (util/stringifyPaths.js)\<close>

text \<open>\<open>path.split(".")\<close>; \<open>seg\<close> is the segment read so far, reversed.\<close>

fun split_from :: "string \<Rightarrow> string \<Rightarrow> string list" where
  "split_from seg [] = [rev seg]"
| "split_from seg (c # cs) =
     (if c = CHR ''.'' then rev seg # split_from [] cs else split_from (c # seg) cs)"

definition split :: "string \<Rightarrow> string list" where
  "split path = split_from [] path"

lemma size_get_prop: "get_prop v key = Data w \<Longrightarrow> size w \<le> size v"
proof (cases v)
  case (Obj fs)
  assume g: "get_prop v key = Data w"
  show ?thesis
  proof (cases "map_of fs key")
    case None
    with g Obj show ?thesis by (simp split: if_splits)
  next
    case (Some u)
    then have "(key, u) \<in> set fs" by (rule map_of_SomeD)
    then have "size_prod (\<lambda>_. 0) size (key, u) \<le> size_list (size_prod (\<lambda>_. 0) size) fs"
      by (rule size_list_estimation') simp
    with g Obj Some show ?thesis by simp
  qed
qed auto

lemma child_smaller:
  assumes "length (tl parts) \<noteq> 0" and "get_prop v key = Data w"
  shows "((rt, w, tl parts), rt', v, parts)
    \<in> measure (\<lambda>(rt, current, parts). size current + length parts)"
proof -
  from assms(1) have "length (tl parts) < length parts" by (cases parts) auto
  with size_get_prop [OF assms(2)] show ?thesis by simp
qed

text \<open>
  \<open>recurse(current, remainingParts)\<close>. Destructuring an empty \<open>remainingParts\<close> gives
  \<open>key = undefined\<close>, which as a property name is the string "undefined", and an empty rest.
\<close>

function recurse :: "runtime \<Rightarrow> jsval \<Rightarrow> string list \<Rightarrow> jsval outcome" where
  "recurse rt current remainingParts =
     (if \<not> truthy current then (current, None)
      else
        (case current of
           Arr items \<Rightarrow>
             (case for_of (\<lambda>item. recurse rt item remainingParts) items of
                (items', r) \<Rightarrow> (Arr items', r))
         | _ \<Rightarrow>
             (let key = (case remainingParts of [] \<Rightarrow> ''undefined'' | k # _ \<Rightarrow> k);
                  rest = tl remainingParts
              in if length rest = 0 then
                   (case get_prop current key of
                      Raises e \<Rightarrow> (current, Some e)
                    | Outside \<Rightarrow> (current, rt current key rest)
                    | Data v \<Rightarrow>
                        if \<not> truthy v then (current, None)
                        else if typeof v \<noteq> ''object'' then (current, None)
                        else
                          (case has_toHexString v of
                             Inl e \<Rightarrow> (current, Some e)
                           | Inr False \<Rightarrow> (current, None)
                           | Inr True \<Rightarrow>
                               (case toHexString v of
                                  Inl e \<Rightarrow> (current, Some e)
                                | Inr s \<Rightarrow> set_prop current key s)))
                 else
                   (case get_prop current key of
                      Raises e \<Rightarrow> (current, Some e)
                    | Outside \<Rightarrow> (current, rt current key rest)
                    | Data child \<Rightarrow>
                        (case recurse rt child rest of
                           (child', r) \<Rightarrow> (mutated_child current key child', r))))))"
  by pat_completeness auto
termination
proof (relation "measure (\<lambda>(rt, current, parts). size current + length parts)")
  show "wf (measure (\<lambda>(rt :: runtime, current, parts :: string list). size current + length parts))"
    by simp
next
  fix rt :: runtime and current :: jsval and remainingParts :: "string list" and items item
  assume "current = Arr items" "item \<in> set items"
  moreover from this have "size item \<le> size_list size items"
    by (simp add: size_list_estimation')
  ultimately show "((rt, item, remainingParts), rt, current, remainingParts)
      \<in> measure (\<lambda>(rt, current, parts). size current + length parts)"
    by simp
qed (metis child_smaller)+

declare recurse.simps [simp del]

text \<open>\<open>applyStringifyAtPath(obj, path)\<close>; only a string has the method \<open>split\<close>.\<close>

definition applyStringifyAtPath :: "runtime \<Rightarrow> jsval \<Rightarrow> jsval \<Rightarrow> jsval outcome" where
  "applyStringifyAtPath rt obj path =
     (case path of
        Str p \<Rightarrow> recurse rt obj (split p)
      | _ \<Rightarrow> (obj, Some TypeError))"

section \<open>The result post-processor (index.js)\<close>

text \<open>
  A document delivered by a lean query is a plain object: the list of its fields. The
  result of \<open>findOne\<close> is one document or \<open>null\<close>, the result of \<open>find\<close> an array of
  documents.
\<close>

type_synonym document = "(string \<times> jsval) list"

datatype result = Absent | Single document | Many "document list"

text \<open>
  The value passed to \<open>lean(...)\<close>. An option holding \<open>Undef\<close> was omitted; \<open>lean()\<close> and
  \<open>lean(true)\<close> are the options with every field omitted. \<open>rename\<close> names a field and is a
  string, as the type declaration of the plugin has it (\<open>rename?: string\<close>); it is \<open>None\<close>
  when omitted.
\<close>

record lean_options =
  stringifyKeys :: jsval
  showVersion :: jsval
  stringifyId :: jsval
  rename :: "string option"

text \<open>The options of a query: \<open>lean\<close> is \<open>None\<close> when unset or falsy.\<close>

record mongoose_options =
  lean :: "lean_options option"

text \<open>
  The query the hook runs on: mongoose binds \<open>this\<close> to it. Its field \<open>_mongooseOptions\<close>
  and what its method \<open>getOptions()\<close> returns are \<open>None\<close> for \<open>null\<close> and \<open>undefined\<close>.
\<close>

record query =
  mongooseOptions :: "mongoose_options option"
  getOptions :: "mongoose_options option"

text \<open>The calls of the continuation: \<open>next()\<close> and \<open>next(error)\<close>.\<close>

datatype signal = Continue_success | Continue_with_error error

text \<open>\<open>this?._mongooseOptions ?? this?.getOptions()\<close>\<close>

definition read_options :: "query \<Rightarrow> mongoose_options option" where
  "read_options this =
     (case mongooseOptions this of Some opts \<Rightarrow> Some opts | None \<Rightarrow> getOptions this)"

text \<open>\<open>options?.lean\<close>\<close>

definition lean_of :: "mongoose_options option \<Rightarrow> lean_options option" where
  "lean_of options = (case options of None \<Rightarrow> None | Some opts \<Rightarrow> lean opts)"

text \<open>A destructuring default replaces \<open>undefined\<close> only.\<close>

definition dflt :: "jsval \<Rightarrow> jsval \<Rightarrow> jsval" where
  "dflt d v = (if v = Undef then d else v)"

text \<open>
  \<open>record._id\<close>, \<open>record?._id\<close> and \<open>record?.__v\<close> on a document: neither name is inherited.
\<close>

definition field :: "document \<Rightarrow> string \<Rightarrow> jsval" where
  "field doc key = (case map_of doc key of None \<Rightarrow> Undef | Some v \<Rightarrow> v)"

text \<open>\<open>Number.isInteger(v)\<close>\<close>

fun isInteger :: "jsval \<Rightarrow> bool" where
  "isInteger (Num q) = (of_int \<lfloor>q\<rfloor> = q)"
| "isInteger v = False"

text \<open>A document is an object and stays one under the path rewriter.\<close>

definition stringify_at :: "runtime \<Rightarrow> document \<Rightarrow> jsval \<Rightarrow> document outcome" where
  "stringify_at rt doc path =
     (case applyStringifyAtPath rt (Obj doc) path of
        (Obj doc', r) \<Rightarrow> (doc', r)
      | (_, r) \<Rightarrow> (doc, r))"

text \<open>\<open>for (const path of stringifyKeys) applyStringifyAtPath(doc, path)\<close>\<close>

fun for_paths :: "runtime \<Rightarrow> jsval list \<Rightarrow> document \<Rightarrow> document outcome" where
  "for_paths rt [] doc = (doc, None)"
| "for_paths rt (path # paths) doc =
     (case stringify_at rt doc path of
        (doc', Some e) \<Rightarrow> (doc', Some e)
      | (doc', None) \<Rightarrow> for_paths rt paths doc')"

text \<open>Lines 20 to 31: \<open>Array.isArray(stringifyKeys) && stringifyKeys?.length\<close> guards the loops.\<close>

definition stringify_docs :: "runtime \<Rightarrow> jsval \<Rightarrow> document list \<Rightarrow> document list outcome" where
  "stringify_docs rt keys docs =
     (case keys of
        Arr paths \<Rightarrow>
          if length paths \<noteq> 0 then for_of (for_paths rt paths) docs else (docs, None)
      | _ \<Rightarrow> (docs, None))"

text \<open>Line 39: \<open>if (Number.isInteger(record?.__v)) delete record.__v\<close>\<close>

definition deversion :: "document \<Rightarrow> document" where
  "deversion doc = (if isInteger (field doc ''__v'') then AList.delete ''__v'' doc else doc)"

text \<open>Lines 36 to 41.\<close>

definition deversion_docs :: "jsval \<Rightarrow> document list \<Rightarrow> document list" where
  "deversion_docs show_version docs = (if \<not> truthy show_version then map deversion docs else docs)"

text \<open>
  Lines 45 to 48: \<open>id.toString()\<close> of an ObjectId is its hexadecimal string, written to the
  own field \<open>_id\<close> it was read from.
\<close>

definition stringify_id :: "document \<Rightarrow> document" where
  "stringify_id doc =
     (let id = field doc ''_id''
      in case id of
           ObjectId h \<Rightarrow> if truthy id then AList.update ''_id'' (Str h) doc else doc
         | _ \<Rightarrow> doc)"

text \<open>
  Lines 51 to 54: \<open>if (rename)\<close> holds for a non-empty string;
  \<open>record[rename] = record._id; delete record._id\<close>.
\<close>

definition rename_id :: "string option \<Rightarrow> document \<Rightarrow> document" where
  "rename_id new_name doc =
     (case new_name of
        None \<Rightarrow> doc
      | Some name \<Rightarrow>
          if name \<noteq> [] then AList.delete ''_id'' (assign doc name (field doc ''_id''))
          else doc)"

text \<open>Lines 43 to 56.\<close>

definition identify_docs :: "jsval \<Rightarrow> string option \<Rightarrow> document list \<Rightarrow> document list" where
  "identify_docs stringify new_name docs =
     (if truthy stringify \<or> (case new_name of None \<Rightarrow> False | Some name \<Rightarrow> name \<noteq> [])
      then map (\<lambda>doc. rename_id new_name (stringify_id doc)) docs
      else docs)"

text \<open>Lines 13 to 56 on the documents of the result.\<close>

definition process :: "runtime \<Rightarrow> lean_options \<Rightarrow> document list \<Rightarrow> document list outcome" where
  "process rt opts docs =
     (let keys = dflt (Arr []) (stringifyKeys opts);
          show_version = dflt (Bool False) (showVersion opts);
          stringify = dflt (Bool True) (stringifyId opts);
          new_name = rename opts
      in case stringify_docs rt keys docs of
           (docs', Some e) \<Rightarrow> (docs', Some e)
         | (docs', None) \<Rightarrow>
             (identify_docs stringify new_name (deversion_docs show_version docs'), None))"

text \<open>
  \<open>Array.isArray(result) ? result : [result]\<close>: the documents the loops run over. The array
  made for one document is local to the hook. An absent result has left the hook before.
\<close>

fun normalize :: "result \<Rightarrow> document list" where
  "normalize Absent = []"
| "normalize (Single doc) = [doc]"
| "normalize (Many docs) = docs"

text \<open>
  The documents are mutated in place and the hook passes no value to \<open>next\<close>, so the caller
  keeps the reference it had: to its one document (the only element of the local array) or to
  its array, whose elements are now \<open>docs\<close>.
\<close>

fun delivered :: "result \<Rightarrow> document list \<Rightarrow> result" where
  "delivered Absent docs = Absent"
| "delivered (Single doc) docs = (case docs of [] \<Rightarrow> Single doc | doc' # _ \<Rightarrow> Single doc')"
| "delivered (Many _) docs = Many docs"

text \<open>
  The body of \<open>try\<close>: what the caller's result has become, the calls of \<open>next\<close> made so far,
  and the exception raised, if any. \<open>next\<close> itself is taken to return normally.
\<close>

definition try_block :: "runtime \<Rightarrow> query \<Rightarrow> result \<Rightarrow> (result \<times> signal list) outcome" where
  "try_block rt this result =
     (case lean_of (read_options this) of
        None \<Rightarrow> ((result, [Continue_success]), None)
      | Some opts \<Rightarrow>
          if result = Absent then ((result, [Continue_success]), None)
          else
            (case process rt opts (normalize result) of
               (docs, Some e) \<Rightarrow> ((delivered result docs, []), Some e)
             | (docs, None) \<Rightarrow> ((delivered result docs, [Continue_success]), None)))"

text \<open>The hook: \<open>try { ... } catch (error) { next(error) }\<close>.\<close>

definition mongooseLeanExtension :: "runtime \<Rightarrow> query \<Rightarrow> result \<Rightarrow> result \<times> signal list" where
  "mongooseLeanExtension rt this result =
     (case try_block rt this result of
        ((result', signals), None) \<Rightarrow> (result', signals)
      | ((result', signals), Some e) \<Rightarrow> (result', signals @ [Continue_with_error e]))"

section \<open>Notions used to state the properties\<close>

text \<open>
  Two runtimes. Under \<open>calm\<close> no read outside the data raises. \<open>bson\<close> is the runtime as
  far as the examples below go: read as the last segment, \<open>__proto__\<close> of an ObjectId is
  \<open>ObjectId.prototype\<close>, an object with the method \<open>toHexString\<close>; it passes the three
  guards, and the call of the method on the prototype itself, which holds no bytes, raises
  (a BSONError or a TypeError, according to the version of the library; here a BSONError). The only other read outside the data
  that the examples make is \<open>__proto__\<close> of a string as the last segment: it gives
  \<open>String.prototype\<close>, which has no method \<open>toHexString\<close>, and nothing is raised.
\<close>

definition calm :: runtime where
  "calm current key rest = None"

definition bson :: runtime where
  "bson current key rest =
     (case current of
        ObjectId h \<Rightarrow>
          if key = ''__proto__'' \<and> rest = [] then Some (Thrown ''BSONError'') else None
      | _ \<Rightarrow> None)"

text \<open>
  Under \<open>strict\<close> every read outside the data raises; a path reads the data of a value only
  (own fields of plain objects, elements of arrays) when its traversal ends without
  exception even so.
\<close>

definition strict :: runtime where
  "strict current key rest = Some TypeError"

definition reads_data_only :: "jsval \<Rightarrow> string \<Rightarrow> bool" where
  "reads_data_only obj path \<longleftrightarrow> snd (recurse strict obj (split path)) = None"

text \<open>The string form of an identifier; any other value is left as it is.\<close>

definition string_form :: "jsval \<Rightarrow> jsval" where
  "string_form v = (case v of ObjectId h \<Rightarrow> Str h | _ \<Rightarrow> v)"

text \<open>
  What a path does to the value stored under its first segment: the string form at the last
  segment, the rewriting along the remaining segments before it.
\<close>

definition at_key :: "runtime \<Rightarrow> string list \<Rightarrow> jsval \<Rightarrow> jsval" where
  "at_key rt rest v = (if rest = [] then string_form v else fst (recurse rt v rest))"

text \<open>The primary identifier \<open>h\<close> of a document, as an ObjectId or already as its string.\<close>

definition has_id :: "string \<Rightarrow> document \<Rightarrow> bool" where
  "has_id h doc \<longleftrightarrow> map_of doc ''_id'' = Some (ObjectId h) \<or> map_of doc ''_id'' = Some (Str h)"

text \<open>A value that is neither an identifier, nor an object, nor an array.\<close>

fun primitive :: "jsval \<Rightarrow> bool" where
  "primitive (ObjectId h) = False"
| "primitive (Obj fs) = False"
| "primitive (Arr xs) = False"
| "primitive v = True"

section \<open>The path rewriter: one step at a time\<close>

lemma for_of_no_raise:
  "\<forall>x\<in>set xs. snd (f x) = None \<Longrightarrow> for_of f xs = (map (\<lambda>x. fst (f x)) xs, None)"
  by (induction xs) (fastforce split: prod.splits option.splits)+

lemma for_of_length: "length (fst (for_of f xs)) = length xs"
  by (induction xs) (auto split: prod.splits option.splits)

lemma for_of_success:
  "for_of f xs = (ys, None) \<Longrightarrow> ys = map (\<lambda>x. fst (f x)) xs \<and> (\<forall>x\<in>set xs. snd (f x) = None)"
  by (induction xs arbitrary: ys) (auto split: prod.splits option.splits)

lemma for_of_raise:
  "for_of f xs = (ys, Some e) \<Longrightarrow> \<exists>x\<in>set xs. snd (f x) = Some e"
  by (induction xs arbitrary: ys) (auto split: prod.splits option.splits)

lemma for_of_elementwise:
  assumes "\<And>x. R x x" and "\<And>x. R x (fst (f x))"
  shows "list_all2 R xs (fst (for_of f xs))"
proof (induction xs)
  case Nil
  show ?case by simp
next
  case (Cons x xs)
  show ?case
  proof (cases "f x")
    case (Pair x' r)
    with assms(2) [of x] have x': "R x x'" by simp
    show ?thesis
    proof (cases r)
      case None
      with Pair x' Cons show ?thesis by (auto split: prod.splits)
    next
      case (Some e)
      with Pair x' show ?thesis by (simp add: list_all2_refl assms(1))
    qed
  qed
qed

text \<open>A loop whose steps, run again on what they left, leave it and end alike, does so too.\<close>

lemma for_of_again:
  assumes "\<And>x x' r. x \<in> set xs \<Longrightarrow> f x = (x', r) \<Longrightarrow> f x' = (x', r)"
    and "for_of f xs = (ys, r)"
  shows "for_of f ys = (ys, r)"
  using assms
proof (induction xs arbitrary: ys r)
  case Nil
  then show ?case by simp
next
  case (Cons x xs)
  obtain x' rx where fx: "f x = (x', rx)" by (cases "f x")
  with Cons.prems(1) [of x x' rx] have fx': "f x' = (x', rx)" by simp
  show ?case
  proof (cases rx)
    case (Some e)
    with fx fx' Cons.prems(2) show ?thesis by auto
  next
    case None
    obtain zs rz where rec: "for_of f xs = (zs, rz)" by (cases "for_of f xs")
    have "for_of f zs = (zs, rz)"
      by (rule Cons.IH [OF _ rec]) (auto intro: Cons.prems(1))
    with None fx fx' rec Cons.prems(2) show ?thesis by auto
  qed
qed

lemma map_entry_absent: "map_of fs k = None \<Longrightarrow> AList.map_entry k f fs = fs"
  by (induction fs) (auto split: if_splits)

lemma map_entry_present:
  "map_of fs k = Some v \<Longrightarrow> AList.map_entry k f fs = AList.update k (f v) fs"
  by (induction fs) (auto split: if_splits)

lemma map_entry_twice:
  "AList.map_entry k f (AList.map_entry k g fs) = AList.map_entry k (\<lambda>v. f (g v)) fs"
  by (induction fs) auto

lemma map_entry_swap:
  "k \<noteq> k' \<Longrightarrow> AList.map_entry k f (AList.map_entry k' g fs)
     = AList.map_entry k' g (AList.map_entry k f fs)"
  by (induction fs) auto

lemma map_entry_eq:
  "(\<And>v. (k, v) \<in> set fs \<Longrightarrow> f v = g v) \<Longrightarrow> AList.map_entry k f fs = AList.map_entry k g fs"
  by (induction fs) auto

lemma assign_present: "map_of fs k = Some v \<Longrightarrow> assign fs k w = AList.update k w fs"
  by (simp add: assign_def)

lemma recurse_falsy: "\<not> truthy v \<Longrightarrow> recurse rt v parts = (v, None)"
  by (simp add: recurse.simps)

text \<open>A value that is neither an object nor an array is never changed.\<close>

lemma recurse_leaf:
  assumes "\<forall>fs. v \<noteq> Obj fs" and "\<forall>xs. v \<noteq> Arr xs"
  shows "recurse rt v parts =
    (v, if truthy v
        then rt v (case parts of [] \<Rightarrow> ''undefined'' | k # _ \<Rightarrow> k) (tl parts) else None)"
  using assms by (cases v) (simp_all add: recurse.simps [of rt _ parts] Let_def)

lemma recurse_leaf_fst [simp]:
  "fst (recurse rt Undef parts) = Undef"
  "fst (recurse rt Null parts) = Null"
  "fst (recurse rt (Bool b) parts) = Bool b"
  "fst (recurse rt (Num q) parts) = Num q"
  "fst (recurse rt NaN parts) = NaN"
  "fst (recurse rt (Str s) parts) = Str s"
  "fst (recurse rt (ObjectId h) parts) = ObjectId h"
  by (simp_all add: recurse_leaf)

lemma recurse_Arr_step:
  "recurse rt (Arr items) parts =
     (case for_of (\<lambda>item. recurse rt item parts) items of (items', r) \<Rightarrow> (Arr items', r))"
  by (simp add: recurse.simps [of rt "Arr items"])

lemma recurse_Obj_Nil: "recurse rt (Obj fs) [] = recurse rt (Obj fs) [''undefined'']"
  by (simp add: recurse.simps [of rt "Obj fs"])

lemma recurse_Obj_own_last:
  "map_of fs k = Some v \<Longrightarrow>
   recurse rt (Obj fs) [k] =
     (case v of ObjectId h \<Rightarrow> (Obj (AList.update k (Str h) fs), None) | _ \<Rightarrow> (Obj fs, None))"
  by (subst recurse.simps) (simp add: assign_present split: jsval.splits)

lemma recurse_Obj_own_more:
  "rest \<noteq> [] \<Longrightarrow> map_of fs k = Some v \<Longrightarrow>
   recurse rt (Obj fs) (k # rest) =
     (Obj (AList.map_entry k (\<lambda>_. fst (recurse rt v rest)) fs), snd (recurse rt v rest))"
  by (subst recurse.simps) (simp split: prod.splits)

lemma recurse_Obj_missing:
  "map_of fs k = None \<Longrightarrow> k \<notin> set object_prototype_names \<Longrightarrow>
   recurse rt (Obj fs) (k # rest) = (Obj fs, None)"
  by (subst recurse.simps) (simp add: recurse_falsy map_entry_absent)

lemma recurse_Obj_outside:
  "map_of fs k = None \<Longrightarrow> k \<in> set object_prototype_names \<Longrightarrow>
   recurse rt (Obj fs) (k # rest) = (Obj fs, rt (Obj fs) k rest)"
  by (subst recurse.simps) simp

text \<open>What a path leaves of an object, exception or not.\<close>

lemma recurse_Obj_fst:
  "fst (recurse rt (Obj fs) (k # rest)) = Obj (AList.map_entry k (at_key rt rest) fs)"
proof (cases "map_of fs k")
  case None
  then show ?thesis
    by (cases "k \<in> set object_prototype_names")
      (simp_all add: recurse_Obj_missing recurse_Obj_outside map_entry_absent)
next
  case (Some v)
  show ?thesis
  proof (cases "rest = []")
    case True
    with Some show ?thesis
      by (cases v) (simp_all add: recurse_Obj_own_last map_entry_present at_key_def
          string_form_def update_triv)
  next
    case False
    with Some show ?thesis
      by (simp add: recurse_Obj_own_more map_entry_present at_key_def)
  qed
qed

lemma recurse_Obj_snd:
  "snd (recurse rt (Obj fs) (k # rest)) =
     (case map_of fs k of
        Some v \<Rightarrow> if rest = [] then None else snd (recurse rt v rest)
      | None \<Rightarrow> if k \<in> set object_prototype_names then rt (Obj fs) k rest else None)"
proof (cases "map_of fs k")
  case None
  then show ?thesis
    by (cases "k \<in> set object_prototype_names")
      (simp_all add: recurse_Obj_missing recurse_Obj_outside)
next
  case (Some v)
  then show ?thesis
    by (cases "rest = []"; cases v) (simp_all add: recurse_Obj_own_last recurse_Obj_own_more)
qed

lemma recurse_Obj_is_Obj: "\<exists>fs'. fst (recurse rt (Obj fs) parts) = Obj fs'"
  by (cases parts) (simp_all add: recurse_Obj_Nil recurse_Obj_fst)

section \<open>The path rewriter: where an exception comes from\<close>

text \<open>An exception of the traversal is one the runtime raised at a read outside the data.\<close>

lemma recurse_raise:
  "snd (recurse rt current parts) = Some e \<Longrightarrow> \<exists>v key rest. rt v key rest = Some e"
proof (induction current arbitrary: parts)
  case (Arr items)
  obtain items' where "for_of (\<lambda>item. recurse rt item parts) items = (items', Some e)"
    using Arr.prems
    by (cases "for_of (\<lambda>item. recurse rt item parts) items") (simp add: recurse_Arr_step)
  from for_of_raise [OF this] obtain item
    where "item \<in> set items" "snd (recurse rt item parts) = Some e" by blast
  then show ?case by (rule Arr.IH)
next
  case (Obj fs)
  have step: "\<exists>v key rest. rt v key rest = Some e"
    if "snd (recurse rt (Obj fs) (k # rest)) = Some e" for k rest
  proof (cases "map_of fs k")
    case None
    with that show ?thesis by (auto simp: recurse_Obj_snd split: if_splits)
  next
    case (Some v)
    then have "(k, v) \<in> set fs" by (rule map_of_SomeD)
    moreover from that Some have "snd (recurse rt v rest) = Some e"
      by (simp add: recurse_Obj_snd split: if_splits)
    ultimately show ?thesis by (intro Obj.IH [of "(k, v)" v rest]) simp_all
  qed
  show ?case
  proof (cases parts)
    case Nil
    with Obj.prems step [of "''undefined''" "[]"] show ?thesis by (simp add: recurse_Obj_Nil)
  next
    case (Cons k rest)
    with Obj.prems step show ?thesis by simp
  qed
qed (auto simp: recurse_leaf split: if_splits)

text \<open>
  A traversal that ends without exception under one runtime does the same under every
  runtime that raises nothing where the first raised nothing.
\<close>

lemma recurse_agree:
  assumes "snd (recurse rt current parts) = None"
    and "\<And>v key rest. rt v key rest = None \<Longrightarrow> rt' v key rest = None"
  shows "recurse rt' current parts = recurse rt current parts"
  using assms(1)
proof (induction current arbitrary: parts)
  case (Arr items)
  obtain items' where "for_of (\<lambda>item. recurse rt item parts) items = (items', None)"
    using Arr.prems
    by (cases "for_of (\<lambda>item. recurse rt item parts) items") (simp add: recurse_Arr_step)
  from for_of_success [OF this]
  have "\<forall>item\<in>set items. snd (recurse rt item parts) = None" by simp
  then have "\<And>item. item \<in> set items \<Longrightarrow> recurse rt' item parts = recurse rt item parts"
    by (intro Arr.IH) simp_all
  then have "for_of (\<lambda>item. recurse rt' item parts) items
      = for_of (\<lambda>item. recurse rt item parts) items"
    by (intro for_of_cong) simp_all
  then show ?case by (simp add: recurse_Arr_step)
next
  case (Obj fs)
  have step: "recurse rt' (Obj fs) (k # rest) = recurse rt (Obj fs) (k # rest)"
    if "snd (recurse rt (Obj fs) (k # rest)) = None" for k rest
  proof (cases "map_of fs k")
    case None
    with that assms(2) show ?thesis
      by (cases "k \<in> set object_prototype_names")
        (simp_all add: recurse_Obj_missing recurse_Obj_outside)
  next
    case (Some v)
    show ?thesis
    proof (cases "rest = []")
      case True
      with Some show ?thesis by (simp add: recurse_Obj_own_last)
    next
      case False
      from Some have "(k, v) \<in> set fs" by (rule map_of_SomeD)
      moreover from that Some False have "snd (recurse rt v rest) = None"
        by (simp add: recurse_Obj_snd)
      ultimately have "recurse rt' v rest = recurse rt v rest"
        by (intro Obj.IH [of "(k, v)" v rest]) simp_all
      with Some False show ?thesis by (simp add: recurse_Obj_own_more)
    qed
  qed
  show ?case
  proof (cases parts)
    case Nil
    with Obj.prems step [of "''undefined''" "[]"] show ?thesis by (simp add: recurse_Obj_Nil)
  next
    case (Cons k rest)
    with Obj.prems step show ?thesis by simp
  qed
qed (auto simp: recurse_leaf assms(2) split: if_splits)

lemma recurse_calm: "snd (recurse calm current parts) = None"
proof (cases "snd (recurse calm current parts)")
  case (Some e)
  from recurse_raise [OF this] show ?thesis by (simp add: calm_def)
qed simp

lemma recurse_as_calm:
  "snd (recurse rt current parts) = None \<Longrightarrow> recurse rt current parts = recurse calm current parts"
  by (rule recurse_agree [symmetric]) (simp_all add: calm_def)

lemma recurse_as_strict:
  "snd (recurse strict current parts) = None \<Longrightarrow>
   recurse rt current parts = recurse strict current parts"
  by (rule recurse_agree) (simp_all add: strict_def)

text \<open>Run again on what it left, a traversal leaves it and ends as before.\<close>

lemma recurse_again:
  "recurse rt current parts = (current', r) \<Longrightarrow> recurse rt current' parts = (current', r)"
proof (induction current arbitrary: parts current' r)
  case (Arr items)
  obtain items' where loop: "for_of (\<lambda>item. recurse rt item parts) items = (items', r)"
    and c': "current' = Arr items'"
    using Arr.prems
    by (cases "for_of (\<lambda>item. recurse rt item parts) items") (auto simp: recurse_Arr_step)
  have "for_of (\<lambda>item. recurse rt item parts) items' = (items', r)"
    by (rule for_of_again [OF _ loop]) (rule Arr.IH)
  with c' show ?case by (simp add: recurse_Arr_step)
next
  case (Obj fs)
  have step: "recurse rt current' (k # rest) = (current', r)"
    if run: "recurse rt (Obj fs) (k # rest) = (current', r)" for k rest
  proof (cases "map_of fs k")
    case None
    with run show ?thesis
      by (cases "k \<in> set object_prototype_names")
        (auto simp: recurse_Obj_missing recurse_Obj_outside)
  next
    case (Some v)
    show ?thesis
    proof (cases "rest = []")
      case True
      with Some run show ?thesis
        by (cases v) (auto simp: recurse_Obj_own_last update_conv')
    next
      case False
      from Some have "(k, v) \<in> set fs" by (rule map_of_SomeD)
      obtain v' where v': "recurse rt v rest = (v', r)"
        and c': "current' = Obj (AList.map_entry k (\<lambda>_. v') fs)"
        using run Some False by (cases "recurse rt v rest") (auto simp: recurse_Obj_own_more)
      from \<open>(k, v) \<in> set fs\<close> v' have again: "recurse rt v' rest = (v', r)"
        by (intro Obj.IH [of "(k, v)" v rest]) simp_all
      have "map_of (AList.map_entry k (\<lambda>_. v') fs) k = Some v'"
        using Some by (simp add: map_of_map_entry)
      with again c' False show ?thesis
        by (simp add: recurse_Obj_own_more map_entry_twice)
    qed
  qed
  show ?case
  proof (cases parts)
    case Nil
    from Obj.prems Nil have run: "recurse rt (Obj fs) [''undefined''] = (current', r)"
      by (simp add: recurse_Obj_Nil)
    moreover from recurse_Obj_is_Obj [of rt fs "[''undefined'']"] run
    obtain fs' where "current' = Obj fs'" by auto
    ultimately show ?thesis using step [of "''undefined''" "[]"] Nil
      by (simp add: recurse_Obj_Nil)
  next
    case (Cons k rest)
    with Obj.prems step show ?thesis by simp
  qed
qed (auto simp: recurse_leaf split: if_splits)

section \<open>The path rewriter without exceptions\<close>

lemma recurse_calm_Arr:
  "fst (recurse calm (Arr items) parts) = Arr (map (\<lambda>item. fst (recurse calm item parts)) items)"
  by (simp add: recurse_Arr_step for_of_no_raise recurse_calm)

lemma string_form_idem [simp]: "string_form (string_form v) = string_form v"
  by (cases v) (simp_all add: string_form_def)

lemma string_form_recurse:
  "string_form (fst (recurse rt v parts)) = fst (recurse rt (string_form v) parts)"
proof (cases v)
  case (Obj fs)
  with recurse_Obj_is_Obj [of rt fs parts] show ?thesis by (auto simp: string_form_def)
next
  case (Arr items)
  then show ?thesis
    by (cases "for_of (\<lambda>item. recurse rt item parts) items")
      (simp add: string_form_def recurse_Arr_step)
qed (simp_all add: string_form_def)

lemma recurse_calm_commute:
  "fst (recurse calm (fst (recurse calm v ps)) qs) = fst (recurse calm (fst (recurse calm v qs)) ps)"
proof (induction v arbitrary: ps qs)
  case (Arr items)
  then show ?case by (simp add: recurse_calm_Arr)
next
  case (Obj fs)
  have step: "fst (recurse calm (fst (recurse calm (Obj fs) (k # r))) (k' # r'))
      = fst (recurse calm (fst (recurse calm (Obj fs) (k' # r'))) (k # r))" for k r k' r'
  proof (cases "k = k'")
    case False
    then show ?thesis by (simp add: recurse_Obj_fst map_entry_swap)
  next
    case True
    have "at_key calm r' (at_key calm r v) = at_key calm r (at_key calm r' v)"
      if "(k, v) \<in> set fs" for v
      using Obj [OF that, of v r r'] string_form_recurse [of calm v]
      by (simp add: at_key_def)
    then have "AList.map_entry k (\<lambda>v. at_key calm r' (at_key calm r v)) fs
        = AList.map_entry k (\<lambda>v. at_key calm r (at_key calm r' v)) fs"
      by (rule map_entry_eq)
    with True show ?thesis by (simp add: recurse_Obj_fst map_entry_twice)
  qed
  have nil: "fst (recurse calm (fst (recurse calm (Obj fs) ps')) []) =
      fst (recurse calm (fst (recurse calm (Obj fs) ps')) [''undefined''])" for ps'
    using recurse_Obj_is_Obj [of calm fs ps'] by (auto simp: recurse_Obj_Nil)
  show ?case
  proof (cases ps)
    case Nil
    note ps = Nil
    show ?thesis
    proof (cases qs)
      case Nil
      with ps show ?thesis by simp
    next
      case (Cons k' r')
      with ps step [of "''undefined''" "[]" k' r'] show ?thesis
        by (simp add: nil recurse_Obj_Nil)
    qed
  next
    case (Cons k r)
    note ps = Cons
    show ?thesis
    proof (cases qs)
      case Nil
      with ps step [of k r "''undefined''" "[]"] show ?thesis
        by (simp add: nil recurse_Obj_Nil)
    next
      case (Cons k' r')
      with ps step show ?thesis by simp
    qed
  qed
qed simp_all

section \<open>Splitting a path\<close>

lemma split_from_no_dot:
  "CHR ''.'' \<notin> set a \<Longrightarrow> split_from seg (a @ rest) = split_from (rev a @ seg) rest"
  by (induction a arbitrary: seg) auto

lemma split_two:
  assumes "CHR ''.'' \<notin> set a" "CHR ''.'' \<notin> set b"
  shows "split (a @ CHR ''.'' # b) = [a, b]"
proof -
  have "split_from [] (a @ CHR ''.'' # b) = split_from (rev a) (CHR ''.'' # b)"
    using split_from_no_dot [OF assms(1), of "[]" "CHR ''.'' # b"] by simp
  also have "\<dots> = a # split_from [] (b @ [])" by simp
  also have "split_from [] (b @ []) = [b]"
    using split_from_no_dot [OF assms(2), of "[]" "[]"] by simp
  finally show ?thesis by (simp add: split_def)
qed

lemma split_from_not_Nil: "split_from seg s \<noteq> []"
  by (induction s arbitrary: seg) auto

lemma split_not_Nil: "split s \<noteq> []"
  by (simp add: split_def split_from_not_Nil)

section \<open>The post-processor: loops and exceptions\<close>

lemma stringify_at_Str:
  "stringify_at rt doc (Str p) =
     (AList.map_entry (hd (split p)) (at_key rt (tl (split p))) doc,
      snd (recurse rt (Obj doc) (split p)))"
proof (cases "split p")
  case Nil
  with split_not_Nil show ?thesis by blast
next
  case (Cons k rest)
  obtain c r where c: "recurse rt (Obj doc) (k # rest) = (c, r)"
    by (cases "recurse rt (Obj doc) (k # rest)")
  with recurse_Obj_fst [of rt doc k rest]
  have "c = Obj (AList.map_entry k (at_key rt rest) doc)" by simp
  with c Cons show ?thesis by (simp add: stringify_at_def applyStringifyAtPath_def)
qed

lemma stringify_at_not_Str:
  "\<forall>p. path \<noteq> Str p \<Longrightarrow> stringify_at rt doc path = (doc, Some TypeError)"
  by (cases path) (simp_all add: stringify_at_def applyStringifyAtPath_def)



text \<open>
  Without an exception every document is processed by itself, as it would be alone.
\<close>

lemma stringify_docs_length: "length (fst (stringify_docs rt keys docs)) = length docs"
  by (cases keys) (simp_all add: stringify_docs_def for_of_length)

lemma stringify_docs_success:
  assumes "stringify_docs rt keys docs = (docs', None)" and "i < length docs"
  shows "stringify_docs rt keys [docs ! i] = ([docs' ! i], None)"
proof (cases "\<exists>paths. keys = Arr paths \<and> length paths \<noteq> 0")
  case True
  then obtain paths where keys: "keys = Arr paths" "length paths \<noteq> 0" by blast
  with assms(1) have "for_of (for_paths rt paths) docs = (docs', None)"
    by (simp add: stringify_docs_def)
  from for_of_success [OF this] assms(2)
  have "docs' ! i = fst (for_paths rt paths (docs ! i))"
    "snd (for_paths rt paths (docs ! i)) = None"
    by simp_all
  with keys show ?thesis
    by (cases "for_paths rt paths (docs ! i)") (simp add: stringify_docs_def)
next
  case False
  then have "stringify_docs rt keys xs = (xs, None)" for xs
    by (cases keys) (auto simp: stringify_docs_def)
  with assms show ?thesis by simp
qed

lemma process_length: "length (fst (process rt opts docs)) = length docs"
proof -
  have "length (fst (stringify_docs rt keys docs)) = length docs" for keys
    by (rule stringify_docs_length)
  then show ?thesis
    by (auto simp: process_def Let_def identify_docs_def deversion_docs_def
        split: prod.splits option.splits dest!: arg_cong [where f = fst])
qed

text \<open>What a run without exception has made of the documents.\<close>

lemma process_steps:
  assumes "process rt opts docs = (docs', None)"
  shows "snd (stringify_docs rt (dflt (Arr []) (stringifyKeys opts)) docs) = None
    \<and> docs' = identify_docs (dflt (Bool True) (stringifyId opts)) (rename opts)
        (deversion_docs (dflt (Bool False) (showVersion opts))
          (fst (stringify_docs rt (dflt (Arr []) (stringifyKeys opts)) docs)))"
  using assms
  by (cases "stringify_docs rt (dflt (Arr []) (stringifyKeys opts)) docs")
    (auto simp: process_def Let_def split: option.splits)

lemma process_calm_step:
  assumes "snd (stringify_docs rt (dflt (Arr []) (stringifyKeys opts)) docs) = None"
  shows "snd (process rt opts docs) = None"
  using assms
  by (cases "stringify_docs rt (dflt (Arr []) (stringifyKeys opts)) docs")
    (simp add: process_def Let_def)

lemma process_success:
  assumes "process rt opts docs = (docs', None)" and "i < length docs"
  shows "process rt opts [docs ! i] = ([docs' ! i], None)"
proof -
  let ?keys = "dflt (Arr []) (stringifyKeys opts)"
  obtain docs1 where s: "stringify_docs rt ?keys docs = (docs1, None)"
    using process_steps [OF assms(1)] by (cases "stringify_docs rt ?keys docs") simp
  from s have len: "length docs1 = length docs"
    using stringify_docs_length [of rt ?keys docs] by simp
  from stringify_docs_success [OF s assms(2)]
  have "stringify_docs rt ?keys [docs ! i] = ([docs1 ! i], None)" .
  moreover from process_steps [OF assms(1)] s have
    "docs' = identify_docs (dflt (Bool True) (stringifyId opts)) (rename opts)
       (deversion_docs (dflt (Bool False) (showVersion opts)) docs1)"
    by simp
  ultimately show ?thesis using assms(2) len
    by (simp add: process_def Let_def identify_docs_def deversion_docs_def)
qed

section \<open>The post-processor: the hook\<close>

lemma hook_gate:
  "lean_of (read_options this) = None \<or> result = Absent \<Longrightarrow>
   mongooseLeanExtension rt this result = (result, [Continue_success])"
  by (auto simp: mongooseLeanExtension_def try_block_def split: option.splits)

lemma hook_run:
  "lean_of (read_options this) = Some opts \<Longrightarrow> result \<noteq> Absent \<Longrightarrow>
   mongooseLeanExtension rt this result =
     (delivered result (fst (process rt opts (normalize result))),
      [case snd (process rt opts (normalize result)) of
         None \<Rightarrow> Continue_success | Some e \<Rightarrow> Continue_with_error e])"
  by (simp add: mongooseLeanExtension_def try_block_def split: prod.splits option.splits)

lemma normalize_delivered:
  "length docs = length (normalize result) \<Longrightarrow> result \<noteq> Absent \<Longrightarrow>
   normalize (delivered result docs) = docs"
  by (cases result; cases docs) simp_all

lemma hook_success:
  assumes "lean_of (read_options this) = Some opts"
    and "mongooseLeanExtension rt this result = (result', [Continue_success])"
    and "result \<noteq> Absent"
  shows "process rt opts (normalize result) = (normalize result', None)
    \<and> result' = delivered result (normalize result')"
proof -
  obtain docs' r where p: "process rt opts (normalize result) = (docs', r)"
    by (cases "process rt opts (normalize result)")
  with assms(2) have r: "r = None" and d: "result' = delivered result docs'"
    unfolding hook_run [OF assms(1,3)] by (auto split: option.splits)
  from p have "length docs' = length (normalize result)"
    using process_length [of rt opts "normalize result"] by simp
  with d assms(3) have "normalize result' = docs'" by (simp add: normalize_delivered)
  with p r d show ?thesis by simp
qed

section \<open>The post-processor: what the loops over the paths keep\<close>

lemma at_key_ObjectId:
  "at_key rt rest (ObjectId h) = ObjectId h \<or> at_key rt rest (ObjectId h) = Str h"
  by (simp add: at_key_def string_form_def)

lemma at_key_primitive: "primitive v \<Longrightarrow> at_key rt rest v = v"
  by (cases v) (simp_all add: at_key_def string_form_def)


text \<open>
  The loops touch a field through \<open>at_key\<close> only: what holds of the field and still holds
  after \<open>at_key\<close> holds after the loops, whether they raised or not.
\<close>

lemma stringify_at_keeps:
  assumes "\<And>rest x. I x \<Longrightarrow> I (map_option (at_key rt rest) x)"
    and "I (map_of doc k)"
  shows "I (map_of (fst (stringify_at rt doc path)) k)"
proof (cases "\<exists>p. path = Str p")
  case True
  then obtain p where p: "path = Str p" ..
  show ?thesis
  proof (cases "hd (split p) = k")
    case True
    have "map_of (AList.map_entry k (at_key rt (tl (split p))) doc) k
        = map_option (at_key rt (tl (split p))) (map_of doc k)"
      by (cases "map_of doc k") (simp_all add: map_of_map_entry)
    with True p assms show ?thesis by (simp add: stringify_at_Str)
  next
    case False
    with p assms(2) show ?thesis by (simp add: stringify_at_Str map_of_map_entry)
  qed
next
  case False
  with assms(2) show ?thesis by (simp add: stringify_at_not_Str)
qed

lemma for_paths_keeps:
  assumes "\<And>rest x. I x \<Longrightarrow> I (map_option (at_key rt rest) x)"
    and "I (map_of doc k)"
  shows "I (map_of (fst (for_paths rt paths doc)) k)"
  using assms(2)
proof (induction paths arbitrary: doc)
  case Nil
  then show ?case by simp
next
  case (Cons path paths)
  have "I (map_of (fst (stringify_at rt doc path)) k)"
    by (rule stringify_at_keeps [where I = I]) (auto intro: assms(1) Cons.prems)
  with Cons.IH [of "fst (stringify_at rt doc path)"] show ?case
    by (cases "stringify_at rt doc path") (auto split: option.splits)
qed

lemma stringify_docs_keeps:
  assumes "\<And>rest x. I x \<Longrightarrow> I (map_option (at_key rt rest) x)"
    and "i < length docs" and "I (map_of (docs ! i) k)"
  shows "I (map_of (fst (stringify_docs rt keys docs) ! i) k)"
proof (cases "\<exists>paths. keys = Arr paths \<and> length paths \<noteq> 0")
  case True
  then obtain paths where keys: "keys = Arr paths" "length paths \<noteq> 0" by blast
  have "list_all2 (\<lambda>x y. I (map_of x k) \<longrightarrow> I (map_of y k)) docs
      (fst (for_of (for_paths rt paths) docs))"
    by (rule for_of_elementwise) (auto intro: for_paths_keeps [where I = I] assms(1))
  with assms(2,3) keys show ?thesis
    by (simp add: stringify_docs_def list_all2_conv_all_nth)
next
  case False
  then have "stringify_docs rt keys docs = (docs, None)"
    by (cases keys) (auto simp: stringify_docs_def)
  with assms(3) show ?thesis by simp
qed

lemma keeps_absent: "x = None \<Longrightarrow> map_option (at_key rt rest) x = None"
  by simp



lemma keeps_id:
  "x = Some (ObjectId h) \<or> x = Some (Str h) \<Longrightarrow>
   map_option (at_key rt rest) x = Some (ObjectId h)
     \<or> map_option (at_key rt rest) x = Some (Str h)"
  using at_key_ObjectId [of rt rest h] by (auto simp: at_key_primitive)

section \<open>The post-processor: version and identifier of one document\<close>



lemma deversion_other: "k \<noteq> ''__v'' \<Longrightarrow> map_of (deversion doc) k = map_of doc k"
  by (simp add: deversion_def delete_conv')



lemma rename_stringified:
  assumes "has_id h doc" and "name \<noteq> []" and "name \<noteq> ''_id''" and "name \<noteq> ''__proto__''"
  shows "map_of (rename_id (Some name) (stringify_id doc)) ''_id'' = None
    \<and> map_of (rename_id (Some name) (stringify_id doc)) name = Some (Str h)"
  using assms
  by (auto simp: has_id_def rename_id_def assign_def stringify_id_def field_def delete_conv'
      update_conv')

lemma rename_written:
  assumes "name \<noteq> []" and "name \<noteq> ''_id''" and "name \<noteq> ''__proto__''"
  shows "map_of (rename_id (Some name) doc) ''_id'' = None
    \<and> map_of (rename_id (Some name) doc) name = Some (field doc ''_id'')"
  using assms by (simp add: rename_id_def assign_def delete_conv' update_conv')

lemma stringify_id_missing:
  "map_of doc ''_id'' = None \<Longrightarrow> stringify_id doc = doc"
  by (simp add: stringify_id_def field_def)

text \<open>With a name to rename to, a run without exception has renamed every document.\<close>

lemma process_renamed:
  assumes "rename opts = Some name" and "name \<noteq> []"
    and "process rt opts docs = (docs', None)" and "i < length docs"
  shows "docs' ! i = rename_id (Some name) (stringify_id (deversion_docs
      (dflt (Bool False) (showVersion opts))
      (fst (stringify_docs rt (dflt (Arr []) (stringifyKeys opts)) docs)) ! i))"
proof -
  have "length (fst (stringify_docs rt (dflt (Arr []) (stringifyKeys opts)) docs)) = length docs"
    by (rule stringify_docs_length)
  with assms process_steps [OF assms(3)] show ?thesis
    by (auto simp: identify_docs_def deversion_docs_def)
qed

lemma process_has_id:
  assumes "rename opts = Some name" and "name \<noteq> []" and "name \<noteq> ''_id''"
    and "name \<noteq> ''__proto__''"
    and "process rt opts docs = (docs', None)" and "i < length docs"
    and "map_of (docs ! i) ''_id'' = Some (ObjectId h)"
  shows "map_of (docs' ! i) ''_id'' = None \<and> map_of (docs' ! i) name = Some (Str h)"
proof -
  let ?docs1 = "fst (stringify_docs rt (dflt (Arr []) (stringifyKeys opts)) docs)"
  let ?sv = "dflt (Bool False) (showVersion opts)"
  let ?I = "\<lambda>x. x = Some (ObjectId h) \<or> x = Some (Str h)"
  from assms(6,7) have "?I (map_of (?docs1 ! i) ''_id'')"
    by (intro stringify_docs_keeps [where I = ?I] keeps_id) simp_all
  moreover have "length ?docs1 = length docs" by (rule stringify_docs_length)
  ultimately have "has_id h (deversion_docs ?sv ?docs1 ! i)"
    using assms(6) by (simp add: deversion_docs_def has_id_def deversion_other)
  from rename_stringified [OF this assms(2,3,4)]
  show ?thesis by (simp add: process_renamed [OF assms(1,2,5,6)])
qed

lemma process_no_id:
  assumes "rename opts = Some name" and "name \<noteq> []" and "name \<noteq> ''_id''"
    and "name \<noteq> ''__proto__''"
    and "process rt opts docs = (docs', None)" and "i < length docs"
  shows "map_of (docs' ! i) ''_id'' = None \<and> map_of (docs' ! i) name \<noteq> None
    \<and> (map_of (docs ! i) ''_id'' = None \<longrightarrow> map_of (docs' ! i) name = Some Undef)"
proof -
  let ?docs1 = "fst (stringify_docs rt (dflt (Arr []) (stringifyKeys opts)) docs)"
  let ?sv = "dflt (Bool False) (showVersion opts)"
  let ?d = "deversion_docs ?sv ?docs1 ! i"
  have len: "length ?docs1 = length docs" by (rule stringify_docs_length)
  have "map_of ?d ''_id'' = None" if "map_of (docs ! i) ''_id'' = None"
  proof -
    from assms(6) that have "map_of (?docs1 ! i) ''_id'' = None"
      by (intro stringify_docs_keeps [where I = "\<lambda>x. x = None"] keeps_absent) simp_all
    with len assms(6) show ?thesis by (simp add: deversion_docs_def deversion_other)
  qed
  then have "map_of (docs ! i) ''_id'' = None \<longrightarrow> field (stringify_id ?d) ''_id'' = Undef"
    by (simp add: stringify_id_missing field_def)
  with rename_written [OF assms(2,3,4), of "stringify_id ?d"]
  show ?thesis by (simp add: process_renamed [OF assms(1,2,5,6)])
qed




section \<open>Evaluation\<close>

text \<open>One step of \<open>recurse\<close> on an object, as an equation that evaluates.\<close>

lemma recurse_Obj_step:
  "recurse rt (Obj fs) (k # rest) =
     (case map_of fs k of
        None \<Rightarrow> (Obj fs, if k \<in> set object_prototype_names then rt (Obj fs) k rest else None)
      | Some v \<Rightarrow>
          if rest = [] then
            (case v of ObjectId h \<Rightarrow> (Obj (AList.update k (Str h) fs), None) | _ \<Rightarrow> (Obj fs, None))
          else (Obj (AList.map_entry k (\<lambda>_. fst (recurse rt v rest)) fs), snd (recurse rt v rest)))"
proof (cases "map_of fs k")
  case None
  then show ?thesis
    by (cases "k \<in> set object_prototype_names")
      (simp_all add: recurse_Obj_missing recurse_Obj_outside)
next
  case (Some v)
  then show ?thesis
    by (cases "rest = []") (simp_all add: recurse_Obj_own_last recurse_Obj_own_more)
qed


text \<open>
  The equations that evaluate the rewriter and the hook on a given runtime, query and
  result.
\<close>

lemmas recurse_eval = recurse_Obj_step recurse_Arr_step recurse_leaf
  object_prototype_names_def bson_def calm_def strict_def

lemmas body_eval = try_block_def read_options_def lean_of_def
  process_def stringify_docs_def dflt_def identify_docs_def deversion_docs_def deversion_def
  stringify_id_def rename_id_def assign_def field_def stringify_at_def applyStringifyAtPath_def
  split_def recurse_eval Let_def

lemmas hook_eval = mongooseLeanExtension_def body_eval

text \<open>
  The example of the documentation: one document with a version and two contributors.
\<close>

lemma documented_example:
  "mongooseLeanExtension bson
     \<lparr>mongooseOptions = Some \<lparr>lean = Some \<lparr>stringifyKeys = Arr [Str ''contributors._id''],
        showVersion = Bool False, stringifyId = Bool True, rename = None\<rparr>\<rparr>, getOptions = None\<rparr>
     (Single [(''_id'', ObjectId ''id1''), (''__v'', Num 0),
              (''contributors'',
                 Arr [Obj [(''_id'', ObjectId ''id2'')], Obj [(''_id'', ObjectId ''id3'')]])])
   = (Single [(''_id'', Str ''id1''),
              (''contributors'', Arr [Obj [(''_id'', Str ''id2'')], Obj [(''_id'', Str ''id3'')]])],
      [Continue_success])"
  by (simp add: hook_eval)

section \<open>Properties\<close>

text \<open>
C1 (fan-out correctness). Let a document hold under \<open>arrayField\<close> an array of N
subdocuments, each with an identifier under \<open>idField\<close> (both names without a dot).
Rewriting the path \<open>arrayField.idField\<close> raises nothing and gives the same document with a
new array under \<open>arrayField\<close> only: it has the same length, and its i-th element is the
i-th subdocument with the string form of its identifier under \<open>idField\<close> and every other
field as it was. This holds for every N, zero and one included, and for every runtime.
Moreover an array met anywhere on the way is rewritten by the loop over its elements, each
with the same list of segments; when the loop raises nothing, every element has been
rewritten by itself.
\<close>

theorem fan_out:
  assumes "CHR ''.'' \<notin> set arrayField" and "CHR ''.'' \<notin> set idField"
    and "map_of doc arrayField = Some (Arr subdocs)"
    and "\<forall>s\<in>set subdocs. \<exists>fs h. s = Obj fs \<and> map_of fs idField = Some (ObjectId h)"
  shows "(\<exists>subdocs'.
            applyStringifyAtPath rt (Obj doc) (Str (arrayField @ ''.'' @ idField)) =
              (Obj (AList.update arrayField (Arr subdocs') doc), None)
          \<and> length subdocs' = length subdocs
          \<and> (\<forall>i<length subdocs. \<exists>fs h.
                 subdocs ! i = Obj fs \<and> map_of fs idField = Some (ObjectId h) \<and>
                 subdocs' ! i = Obj (AList.update idField (Str h) fs)))
       \<and> recurse rt (Arr items) parts =
           (case for_of (\<lambda>item. recurse rt item parts) items of (items', r) \<Rightarrow> (Arr items', r))
       \<and> (snd (recurse rt (Arr items) parts) = None \<longrightarrow>
            recurse rt (Arr items) parts
              = (Arr (map (\<lambda>item. fst (recurse rt item parts)) items), None))"
proof -
  let ?subdocs' = "map (\<lambda>s. fst (recurse rt s [idField])) subdocs"
  have each: "\<exists>fs h. s = Obj fs \<and> map_of fs idField = Some (ObjectId h) \<and>
      recurse rt s [idField] = (Obj (AList.update idField (Str h) fs), None)"
    if "s \<in> set subdocs" for s
  proof -
    from that assms(4) obtain fs h where "s = Obj fs" "map_of fs idField = Some (ObjectId h)"
      by blast
    then show ?thesis by (simp add: recurse_Obj_own_last)
  qed
  then have "\<forall>s\<in>set subdocs. snd (recurse rt s [idField]) = None" by fastforce
  then have arr: "recurse rt (Arr subdocs) [idField] = (Arr ?subdocs', None)"
    by (simp add: recurse_Arr_step for_of_no_raise)
  have "applyStringifyAtPath rt (Obj doc) (Str (arrayField @ ''.'' @ idField)) =
      recurse rt (Obj doc) [arrayField, idField]"
    by (simp add: applyStringifyAtPath_def split_two assms(1,2))
  also have "\<dots> = (Obj (AList.update arrayField (Arr ?subdocs') doc), None)"
    by (simp add: recurse_Obj_own_more [OF _ assms(3)] arr map_entry_present [OF assms(3)])
  finally have 1: "applyStringifyAtPath rt (Obj doc) (Str (arrayField @ ''.'' @ idField)) =
      (Obj (AList.update arrayField (Arr ?subdocs') doc), None)" .
  have 2: "\<exists>fs h. subdocs ! i = Obj fs \<and> map_of fs idField = Some (ObjectId h) \<and>
      ?subdocs' ! i = Obj (AList.update idField (Str h) fs)" if "i < length subdocs" for i
    using each [of "subdocs ! i"] that by auto
  from 1 2 have first: "\<exists>subdocs'.
            applyStringifyAtPath rt (Obj doc) (Str (arrayField @ ''.'' @ idField)) =
              (Obj (AList.update arrayField (Arr subdocs') doc), None)
          \<and> length subdocs' = length subdocs
          \<and> (\<forall>i<length subdocs. \<exists>fs h.
                 subdocs ! i = Obj fs \<and> map_of fs idField = Some (ObjectId h) \<and>
                 subdocs' ! i = Obj (AList.update idField (Str h) fs))"
    by (intro exI [of _ ?subdocs']) simp
  have third: "recurse rt (Arr items) parts
      = (Arr (map (\<lambda>item. fst (recurse rt item parts)) items), None)"
    if "snd (recurse rt (Arr items) parts) = None"
  proof -
    obtain items' r where f: "for_of (\<lambda>item. recurse rt item parts) items = (items', r)"
      by (cases "for_of (\<lambda>item. recurse rt item parts) items")
    with that have "r = None" by (simp add: recurse_Arr_step)
    with f for_of_success [of "\<lambda>item. recurse rt item parts" items items']
    show ?thesis by (simp add: recurse_Arr_step)
  qed
  from first third show ?thesis by (simp add: recurse_Arr_step)
qed

theorem fan_out_witness:
  "applyStringifyAtPath bson
     (Obj [(''name'', Str ''express''),
           (''contributors'',
              Arr [Obj [(''username'', Str ''tj''), (''_id'', ObjectId ''a1'')],
                   Obj [(''_id'', ObjectId ''b2'')]])])
     (Str ''contributors._id'')
   = (Obj [(''name'', Str ''express''),
           (''contributors'',
              Arr [Obj [(''username'', Str ''tj''), (''_id'', Str ''a1'')],
                   Obj [(''_id'', Str ''b2'')]])], None)
   \<and> recurse bson
       (Arr [Obj [(''username'', Str ''tj''), (''_id'', ObjectId ''a1'')],
             Obj [(''_id'', ObjectId ''b2'')]]) [''_id'']
     = (Arr [fst (recurse bson (Obj [(''username'', Str ''tj''), (''_id'', ObjectId ''a1'')])
               [''_id'']),
             fst (recurse bson (Obj [(''_id'', ObjectId ''b2'')]) [''_id''])], None)"
proof -
  let ?subdocs = "[Obj [(''username'', Str ''tj''), (''_id'', ObjectId ''a1'')],
                   Obj [(''_id'', ObjectId ''b2'')]]"
  let ?doc = "[(''name'', Str ''express''), (''contributors'', Arr ?subdocs)]"
  note f = fan_out [of "''contributors''" "''_id''" ?doc ?subdocs bson ?subdocs "[''_id'']"]
  have "\<exists>subdocs'.
      applyStringifyAtPath bson (Obj ?doc) (Str ''contributors._id'') =
        (Obj (AList.update ''contributors'' (Arr subdocs') ?doc), None)
      \<and> length subdocs' = length ?subdocs
      \<and> (\<forall>i<length ?subdocs. \<exists>fs h.
             ?subdocs ! i = Obj fs \<and> map_of fs ''_id'' = Some (ObjectId h) \<and>
             subdocs' ! i = Obj (AList.update ''_id'' (Str h) fs))"
    using f by simp
  then obtain subdocs' where
    eq: "applyStringifyAtPath bson (Obj ?doc) (Str ''contributors._id'') =
        (Obj (AList.update ''contributors'' (Arr subdocs') ?doc), None)"
    and len: "length subdocs' = 2"
    and el: "\<forall>i<2. \<exists>fs h.
             ?subdocs ! i = Obj fs \<and> map_of fs ''_id'' = Some (ObjectId h) \<and>
             subdocs' ! i = Obj (AList.update ''_id'' (Str h) fs)"
    by auto
  from el have "subdocs' ! 0 = Obj [(''username'', Str ''tj''), (''_id'', Str ''a1'')]"
    by (auto dest!: spec [of _ 0])
  moreover from el have "subdocs' ! 1 = Obj [(''_id'', Str ''b2'')]"
    by (auto dest!: spec [of _ 1])
  ultimately have "subdocs' = [Obj [(''username'', Str ''tj''), (''_id'', Str ''a1'')],
      Obj [(''_id'', Str ''b2'')]]"
    using len by (auto simp: length_Suc_conv numeral_2_eq_2)
  with eq have first: "applyStringifyAtPath bson (Obj ?doc) (Str ''contributors._id'')
      = (Obj [(''name'', Str ''express''),
           (''contributors'',
              Arr [Obj [(''username'', Str ''tj''), (''_id'', Str ''a1'')],
                   Obj [(''_id'', Str ''b2'')]])], None)"
    by simp
  have "recurse bson (Arr ?subdocs) [''_id'']
      = (Arr (map (\<lambda>item. fst (recurse bson item [''_id''])) ?subdocs), None)"
    by (rule f [THEN conjunct2, THEN conjunct2, THEN mp]) (simp_all add: recurse_eval)
  with first show ?thesis by simp
qed

text \<open>
C2 (rename and stringification), as amended. Let the options ask for a
rename to a non-empty name other than \<open>_id\<close> and \<open>__proto__\<close>, whatever \<open>stringifyId\<close> is
(true, false or omitted), and let the hook signal success. Then a document whose \<open>_id\<close> held
the identifier \<open>h\<close> is delivered without a field \<open>_id\<close> and with the string form of \<open>h\<close>
under the new name; this holds for the one document of \<open>findOne\<close> and for every document
of \<open>find\<close>, and for every runtime.
\<close>

theorem rename_after_stringify:
  assumes "lean_of (read_options this) = Some opts"
    and "rename opts = Some name" and "name \<noteq> []" and "name \<noteq> ''_id''"
    and "name \<noteq> ''__proto__''"
  shows "(mongooseLeanExtension rt this (Single doc) = (Single doc', [Continue_success]) \<longrightarrow>
          map_of doc ''_id'' = Some (ObjectId h) \<longrightarrow>
          map_of doc' ''_id'' = None \<and> map_of doc' name = Some (Str h))
    \<and> (mongooseLeanExtension rt this (Many docs) = (Many docs', [Continue_success]) \<longrightarrow>
          (\<forall>i<length docs. \<forall>h'. map_of (docs ! i) ''_id'' = Some (ObjectId h') \<longrightarrow>
             map_of (docs' ! i) ''_id'' = None \<and> map_of (docs' ! i) name = Some (Str h')))"
proof (rule conjI)
  show "mongooseLeanExtension rt this (Single doc) = (Single doc', [Continue_success]) \<longrightarrow>
          map_of doc ''_id'' = Some (ObjectId h) \<longrightarrow>
          map_of doc' ''_id'' = None \<and> map_of doc' name = Some (Str h)"
  proof (intro impI)
    assume run: "mongooseLeanExtension rt this (Single doc) = (Single doc', [Continue_success])"
      and id: "map_of doc ''_id'' = Some (ObjectId h)"
    from hook_success [OF assms(1) run] have p: "process rt opts [doc] = ([doc'], None)"
      by simp
    from process_has_id [OF assms(2-5) p, of 0 h] id
    show "map_of doc' ''_id'' = None \<and> map_of doc' name = Some (Str h)" by simp
  qed
  show "mongooseLeanExtension rt this (Many docs) = (Many docs', [Continue_success]) \<longrightarrow>
          (\<forall>i<length docs. \<forall>h'. map_of (docs ! i) ''_id'' = Some (ObjectId h') \<longrightarrow>
             map_of (docs' ! i) ''_id'' = None \<and> map_of (docs' ! i) name = Some (Str h'))"
  proof (intro impI allI)
    fix i h'
    assume run: "mongooseLeanExtension rt this (Many docs) = (Many docs', [Continue_success])"
      and i: "i < length docs" and id: "map_of (docs ! i) ''_id'' = Some (ObjectId h')"
    from hook_success [OF assms(1) run] have p: "process rt opts docs = (docs', None)" by simp
    from process_has_id [OF assms(2-5) p i id]
    show "map_of (docs' ! i) ''_id'' = None \<and> map_of (docs' ! i) name = Some (Str h')" .
  qed
qed

theorem rename_after_stringify_witness:
  "mongooseLeanExtension bson
     \<lparr>mongooseOptions = Some \<lparr>lean = Some \<lparr>stringifyKeys = Undef, showVersion = Undef,
        stringifyId = Undef, rename = Some ''uid''\<rparr>\<rparr>, getOptions = None\<rparr>
     (Single [(''_id'', ObjectId ''a1''), (''name'', Str ''express'')])
     = (Single [(''name'', Str ''express''), (''uid'', Str ''a1'')], [Continue_success])
   \<and> map_of [(''name'', Str ''express''), (''uid'', Str ''a1'')] ''_id'' = None
   \<and> map_of [(''name'', Str ''express''), (''uid'', Str ''a1'')] ''uid'' = Some (Str ''a1'')
   \<and> mongooseLeanExtension bson
     \<lparr>mongooseOptions = Some \<lparr>lean = Some \<lparr>stringifyKeys = Undef, showVersion = Undef,
        stringifyId = Undef, rename = Some ''uid''\<rparr>\<rparr>, getOptions = None\<rparr>
     (Many [[(''_id'', ObjectId ''a1''), (''name'', Str ''express'')]])
     = (Many [[(''name'', Str ''express''), (''uid'', Str ''a1'')]], [Continue_success])"
proof -
  let ?opts = "\<lparr>stringifyKeys = Undef, showVersion = Undef, stringifyId = Undef,
    rename = Some ''uid''\<rparr>"
  let ?q = "\<lparr>mongooseOptions = Some \<lparr>lean = Some ?opts\<rparr>, getOptions = None\<rparr>"
  let ?doc = "[(''_id'', ObjectId ''a1''), (''name'', Str ''express'')]"
  let ?doc' = "[(''name'', Str ''express''), (''uid'', Str ''a1'')]"
  have one: "mongooseLeanExtension bson ?q (Single ?doc) = (Single ?doc', [Continue_success])"
    by (simp add: hook_eval)
  have many: "mongooseLeanExtension bson ?q (Many [?doc]) = (Many [?doc'], [Continue_success])"
    by (simp add: hook_eval)
  have "lean_of (read_options ?q) = Some ?opts"
    by (simp add: read_options_def lean_of_def)
  from rename_after_stringify [OF this, of "''uid''" bson ?doc ?doc' "''a1''" "[?doc]" "[?doc']"]
    one many
  show ?thesis by simp
qed

text \<open>
C2 as stated fails in three ways. For the name \<open>_id\<close> the string is written under \<open>_id\<close>
and the field is then deleted, so the delivered document has no field of the name asked for.
For the name \<open>__proto__\<close> the assignment goes to the inherited setter, which ignores a string:
no field is made. And when a path of \<open>stringifyKeys\<close> raises (here \<open>_id.__proto__\<close>) the hook
signals the error before it reaches the rename: the document keeps its \<open>_id\<close>, an ObjectId.
\<close>

theorem rename_after_stringify_counterexample:
  "mongooseLeanExtension bson
     \<lparr>mongooseOptions = Some \<lparr>lean = Some \<lparr>stringifyKeys = Undef, showVersion = Undef,
        stringifyId = Bool True, rename = Some ''_id''\<rparr>\<rparr>, getOptions = None\<rparr>
     (Single [(''_id'', ObjectId ''a1''), (''name'', Str ''express'')])
     = (Single [(''name'', Str ''express'')], [Continue_success])
   \<and> mongooseLeanExtension bson
     \<lparr>mongooseOptions = Some \<lparr>lean = Some \<lparr>stringifyKeys = Undef, showVersion = Undef,
        stringifyId = Bool True, rename = Some ''__proto__''\<rparr>\<rparr>, getOptions = None\<rparr>
     (Single [(''_id'', ObjectId ''a1''), (''name'', Str ''express'')])
     = (Single [(''name'', Str ''express'')], [Continue_success])
   \<and> mongooseLeanExtension bson
     \<lparr>mongooseOptions = Some \<lparr>lean = Some \<lparr>stringifyKeys = Arr [Str ''_id.__proto__''],
        showVersion = Undef, stringifyId = Bool True, rename = Some ''uid''\<rparr>\<rparr>, getOptions = None\<rparr>
     (Single [(''_id'', ObjectId ''a1''), (''name'', Str ''express'')])
     = (Single [(''_id'', ObjectId ''a1''), (''name'', Str ''express'')],
        [Continue_with_error (Thrown ''BSONError'')])"
  by (simp add: hook_eval)

text \<open>
C3 (no-op gate). When the query has no options, or its options do not ask for lean, or
the result is absent, the hook delivers the result as it received it, whether one document,
an array or nothing, and signals success, once.
\<close>

theorem no_op_gate:
  "read_options this = None \<or> lean_of (read_options this) = None \<or> result = Absent \<Longrightarrow>
   mongooseLeanExtension rt this result = (result, [Continue_success])"
proof -
  assume "read_options this = None \<or> lean_of (read_options this) = None \<or> result = Absent"
  then have "lean_of (read_options this) = None \<or> result = Absent"
    by (auto simp: lean_of_def)
  then show ?thesis
    by (auto simp: mongooseLeanExtension_def try_block_def split: option.splits)
qed

theorem no_op_gate_witness:
  "mongooseLeanExtension bson \<lparr>mongooseOptions = None, getOptions = None\<rparr>
       (Many [[(''_id'', ObjectId ''a1''), (''__v'', Num 0)]])
     = (Many [[(''_id'', ObjectId ''a1''), (''__v'', Num 0)]], [Continue_success])
   \<and> mongooseLeanExtension bson
         \<lparr>mongooseOptions = Some \<lparr>lean = None\<rparr>, getOptions = None\<rparr>
         (Single [(''_id'', ObjectId ''a1''), (''__v'', Num 0)])
     = (Single [(''_id'', ObjectId ''a1''), (''__v'', Num 0)], [Continue_success])
   \<and> mongooseLeanExtension bson
         \<lparr>mongooseOptions = Some \<lparr>lean = Some \<lparr>stringifyKeys = Undef, showVersion = Undef,
            stringifyId = Undef, rename = None\<rparr>\<rparr>, getOptions = None\<rparr>
         Absent
     = (Absent, [Continue_success])"
  using no_op_gate [of "\<lparr>mongooseOptions = None, getOptions = None\<rparr>"
      "Many [[(''_id'', ObjectId ''a1''), (''__v'', Num 0)]]" bson]
    no_op_gate [of "\<lparr>mongooseOptions = Some \<lparr>lean = None\<rparr>, getOptions = None\<rparr>"
      "Single [(''_id'', ObjectId ''a1''), (''__v'', Num 0)]" bson]
    no_op_gate [of "\<lparr>mongooseOptions = Some \<lparr>lean = Some \<lparr>stringifyKeys = Undef,
      showVersion = Undef, stringifyId = Undef, rename = None\<rparr>\<rparr>, getOptions = None\<rparr>" Absent bson]
  by (simp add: read_options_def lean_of_def)

text \<open>
C4 (shape of the result). One document comes back as one document. An array comes back
as an array of the same length; when the hook signals success its i-th element is what the
hook delivers for the i-th document alone.
\<close>

theorem shape_preserved:
  "(\<exists>doc'. fst (mongooseLeanExtension rt this (Single doc)) = Single doc')
   \<and> (\<exists>docs'. fst (mongooseLeanExtension rt this (Many docs)) = Many docs'
        \<and> length docs' = length docs
        \<and> (snd (mongooseLeanExtension rt this (Many docs)) = [Continue_success] \<longrightarrow>
             (\<forall>i<length docs.
                 fst (mongooseLeanExtension rt this (Single (docs ! i))) = Single (docs' ! i))))"
proof (cases "lean_of (read_options this)")
  case None
  then show ?thesis by (simp add: hook_gate)
next
  case (Some opts)
  have single: "\<exists>doc'. fst (mongooseLeanExtension rt this (Single doc)) = Single doc'"
    using process_length [of rt opts "[doc]"]
    by (cases "fst (process rt opts [doc])") (simp_all add: hook_run [OF Some])
  obtain docs' r where p: "process rt opts docs = (docs', r)"
    by (cases "process rt opts docs")
  have many: "mongooseLeanExtension rt this (Many docs) =
      (Many docs', [case r of None \<Rightarrow> Continue_success | Some e \<Rightarrow> Continue_with_error e])"
    by (simp add: hook_run [OF Some] p)
  have len: "length docs' = length docs"
    using process_length [of rt opts docs] p by simp
  have ok: "fst (mongooseLeanExtension rt this (Single (docs ! i))) = Single (docs' ! i)"
    if "r = None" "i < length docs" for i
    using process_success [OF p [unfolded that(1)] that(2)]
    by (simp add: hook_run [OF Some])
  have "fst (mongooseLeanExtension rt this (Many docs)) = Many docs'
        \<and> length docs' = length docs
        \<and> (snd (mongooseLeanExtension rt this (Many docs)) = [Continue_success] \<longrightarrow>
             (\<forall>i<length docs.
                 fst (mongooseLeanExtension rt this (Single (docs ! i))) = Single (docs' ! i)))"
    using len ok by (cases r) (simp_all add: many)
  with single show ?thesis by blast
qed

theorem shape_preserved_witness:
  "mongooseLeanExtension bson
     \<lparr>mongooseOptions = Some \<lparr>lean = Some \<lparr>stringifyKeys = Arr [Str ''owner''],
        showVersion = Undef, stringifyId = Undef, rename = None\<rparr>\<rparr>, getOptions = None\<rparr>
     (Many [[(''_id'', ObjectId ''a1''), (''__v'', Num 0)],
            [(''_id'', ObjectId ''b2''), (''owner'', ObjectId ''c3'')]])
     = (Many [[(''_id'', Str ''a1'')], [(''_id'', Str ''b2''), (''owner'', Str ''c3'')]],
        [Continue_success])"
proof -
  let ?q = "\<lparr>mongooseOptions = Some \<lparr>lean = Some \<lparr>stringifyKeys = Arr [Str ''owner''],
    showVersion = Undef, stringifyId = Undef, rename = None\<rparr>\<rparr>, getOptions = None\<rparr>"
  let ?d0 = "[(''_id'', ObjectId ''a1''), (''__v'', Num 0)]"
  let ?d1 = "[(''_id'', ObjectId ''b2''), (''owner'', ObjectId ''c3'')]"
  have ok: "snd (mongooseLeanExtension bson ?q (Many [?d0, ?d1])) = [Continue_success]"
    by (simp add: hook_eval)
  have s0: "fst (mongooseLeanExtension bson ?q (Single ?d0)) = Single [(''_id'', Str ''a1'')]"
    by (simp add: hook_eval)
  have s1: "fst (mongooseLeanExtension bson ?q (Single ?d1))
      = Single [(''_id'', Str ''b2''), (''owner'', Str ''c3'')]"
    by (simp add: hook_eval)
  from shape_preserved [of bson ?q ?d0 "[?d0, ?d1]"] ok obtain docs'
    where many: "fst (mongooseLeanExtension bson ?q (Many [?d0, ?d1])) = Many docs'"
      and len: "length docs' = 2"
      and el: "\<forall>i<2. fst (mongooseLeanExtension bson ?q (Single ([?d0, ?d1] ! i)))
        = Single (docs' ! i)"
    by auto
  from el s0 have "docs' ! 0 = [(''_id'', Str ''a1'')]"
    by (auto dest!: spec [of _ 0])
  moreover from el s1 have "docs' ! 1 = [(''_id'', Str ''b2''), (''owner'', Str ''c3'')]"
    by (auto dest!: spec [of _ 1])
  ultimately have "docs' = [[(''_id'', Str ''a1'')], [(''_id'', Str ''b2''), (''owner'', Str ''c3'')]]"
    using len by (auto simp: length_Suc_conv numeral_2_eq_2)
  with many ok show ?thesis by (simp add: prod_eq_iff)
qed






text \<open>
C7 (what the rewriter raises), as amended. An exception of the
rewriter on a path string is an exception of the runtime, raised where the traversal left
the data; so for a root and a path that read the data only (own fields of plain objects,
elements of arrays) the rewriter ends without an exception, under every runtime. A falsy
root (\<open>null\<close> and \<open>undefined\<close> among them) is returned as it is; an object whose field on the
way is \<open>null\<close> or \<open>undefined\<close>, or is missing and not inherited, is left as it is; so is an
object whose last field holds anything but an identifier (a string, a plain object, an
array), or is missing and not inherited.
\<close>

theorem rewriteAt_raises_outside_only:
  "(snd (applyStringifyAtPath rt obj (Str path)) = Some e \<longrightarrow>
      (\<exists>v key rest. rt v key rest = Some e))
   \<and> (reads_data_only obj path \<longrightarrow> snd (applyStringifyAtPath rt obj (Str path)) = None)
   \<and> (\<not> truthy obj \<longrightarrow> applyStringifyAtPath rt obj (Str path) = (obj, None))
   \<and> (rest' \<noteq> []
        \<and> (map_of fs key = Some Null \<or> map_of fs key = Some Undef
             \<or> map_of fs key = None \<and> key \<notin> set object_prototype_names) \<longrightarrow>
        recurse rt (Obj fs) (key # rest') = (Obj fs, None))
   \<and> ((\<exists>v. map_of fs' key' = Some v \<and> (\<forall>h. v \<noteq> ObjectId h))
        \<or> map_of fs' key' = None \<and> key' \<notin> set object_prototype_names \<longrightarrow>
        recurse rt (Obj fs') [key'] = (Obj fs', None))"
proof (intro conjI impI)
  show "\<exists>v key rest. rt v key rest = Some e"
    if "snd (applyStringifyAtPath rt obj (Str path)) = Some e"
    using that by (auto simp: applyStringifyAtPath_def dest: recurse_raise)
  show "snd (applyStringifyAtPath rt obj (Str path)) = None" if "reads_data_only obj path"
    using that recurse_as_strict [of obj "split path" rt]
    by (simp add: applyStringifyAtPath_def reads_data_only_def)
  show "applyStringifyAtPath rt obj (Str path) = (obj, None)" if "\<not> truthy obj"
    using that by (simp add: applyStringifyAtPath_def recurse_falsy)
  show "recurse rt (Obj fs) (key # rest') = (Obj fs, None)"
    if "rest' \<noteq> []
        \<and> (map_of fs key = Some Null \<or> map_of fs key = Some Undef
             \<or> map_of fs key = None \<and> key \<notin> set object_prototype_names)"
    using that
    by (auto simp: recurse_Obj_own_more recurse_Obj_missing recurse_falsy map_entry_present
        update_triv)
  show "recurse rt (Obj fs') [key'] = (Obj fs', None)"
    if "(\<exists>v. map_of fs' key' = Some v \<and> (\<forall>h. v \<noteq> ObjectId h))
        \<or> map_of fs' key' = None \<and> key' \<notin> set object_prototype_names"
    using that
    by (auto simp: recurse_Obj_own_last recurse_Obj_missing split: jsval.splits)
qed

theorem rewriteAt_raises_outside_only_witness:
  "(\<exists>v key rest. bson v key rest = Some (Thrown ''BSONError''))
   \<and> snd (applyStringifyAtPath bson
       (Obj [(''contributors'', Arr [Obj [(''_id'', ObjectId ''a1'')], Null, Obj [(''username'', Str ''tj'')]])])
       (Str ''contributors._id'')) = None
   \<and> applyStringifyAtPath bson Null (Str ''contributors._id'') = (Null, None)
   \<and> recurse bson (Obj [(''contributors'', Null)]) [''contributors'', ''_id'']
       = (Obj [(''contributors'', Null)], None)
   \<and> recurse bson (Obj [(''_id'', Str ''a1'')]) [''_id''] = (Obj [(''_id'', Str ''a1'')], None)"
proof -
  have "snd (applyStringifyAtPath bson (Obj [(''_id'', ObjectId ''a1'')]) (Str ''_id.__proto__''))
      = Some (Thrown ''BSONError'')"
    by (simp add: body_eval)
  with rewriteAt_raises_outside_only [of bson "Obj [(''_id'', ObjectId ''a1'')]"
      "''_id.__proto__''" "Thrown ''BSONError''"]
  have 1: "\<exists>v key rest. bson v key rest = Some (Thrown ''BSONError'')" by blast
  have "reads_data_only
      (Obj [(''contributors'', Arr [Obj [(''_id'', ObjectId ''a1'')], Null, Obj [(''username'', Str ''tj'')]])])
      ''contributors._id''"
    by (simp add: reads_data_only_def split_def recurse_eval recurse_falsy)
  with rewriteAt_raises_outside_only [of bson
      "Obj [(''contributors'', Arr [Obj [(''_id'', ObjectId ''a1'')], Null, Obj [(''username'', Str ''tj'')]])]"
      "''contributors._id''"]
  have 2: "snd (applyStringifyAtPath bson
       (Obj [(''contributors'', Arr [Obj [(''_id'', ObjectId ''a1'')], Null, Obj [(''username'', Str ''tj'')]])])
       (Str ''contributors._id'')) = None"
    by blast
  from rewriteAt_raises_outside_only [of bson Null "''contributors._id''" TypeError "[''_id'']"
      "[(''contributors'', Null)]" "''contributors''" "[(''_id'', Str ''a1'')]" "''_id''"]
  have "applyStringifyAtPath bson Null (Str ''contributors._id'') = (Null, None)
   \<and> recurse bson (Obj [(''contributors'', Null)]) [''contributors'', ''_id'']
       = (Obj [(''contributors'', Null)], None)
   \<and> recurse bson (Obj [(''_id'', Str ''a1'')]) [''_id''] = (Obj [(''_id'', Str ''a1'')], None)"
    by simp
  with 1 2 show ?thesis by simp
qed

text \<open>
C7 as stated fails: the path \<open>_id.__proto__\<close> reads the prototype of an ObjectId, which
passes the three guards, and the call of \<open>toHexString\<close> on it raises.
\<close>

theorem rewriteAt_raises_counterexample:
  "applyStringifyAtPath bson (Obj [(''_id'', ObjectId ''a1'')]) (Str ''_id.__proto__'')
     = (Obj [(''_id'', ObjectId ''a1'')], Some (Thrown ''BSONError''))"
  by (simp add: body_eval)

text \<open>
C8 (paths are independent), as amended. When neither order raises,
rewriting two paths in one order or the other gives the same value, for every value, every
two path strings and every runtime; so does the loop over the paths of \<open>stringifyKeys\<close> for
the two orders of a pair.
\<close>

theorem paths_commute:
  "(snd (applyStringifyAtPath rt obj (Str p)) = None
      \<and> snd (applyStringifyAtPath rt (fst (applyStringifyAtPath rt obj (Str p))) (Str q)) = None
      \<and> snd (applyStringifyAtPath rt obj (Str q)) = None
      \<and> snd (applyStringifyAtPath rt (fst (applyStringifyAtPath rt obj (Str q))) (Str p)) = None
      \<longrightarrow>
      applyStringifyAtPath rt (fst (applyStringifyAtPath rt obj (Str p))) (Str q)
        = applyStringifyAtPath rt (fst (applyStringifyAtPath rt obj (Str q))) (Str p))
   \<and> (snd (for_paths rt [Str p, Str q] doc) = None
      \<and> snd (for_paths rt [Str q, Str p] doc) = None \<longrightarrow>
      for_paths rt [Str p, Str q] doc = for_paths rt [Str q, Str p] doc)"
proof -
  have 1: "recurse rt (fst (recurse rt v ps)) qs = recurse rt (fst (recurse rt v qs)) ps"
    if "snd (recurse rt v ps) = None" "snd (recurse rt (fst (recurse rt v ps)) qs) = None"
      "snd (recurse rt v qs) = None" "snd (recurse rt (fst (recurse rt v qs)) ps) = None"
    for v ps qs
  proof -
    have "recurse rt v ps = recurse calm v ps" "recurse rt v qs = recurse calm v qs"
      by (rule recurse_as_calm, rule that)+
    moreover
    have "recurse rt (fst (recurse rt v ps)) qs = recurse calm (fst (recurse rt v ps)) qs"
      "recurse rt (fst (recurse rt v qs)) ps = recurse calm (fst (recurse rt v qs)) ps"
      by (rule recurse_as_calm, rule that)+
    ultimately show ?thesis
      using recurse_calm_commute [of v ps qs]
      by (simp add: prod_eq_iff recurse_calm)
  qed
  have 2: "for_paths rt [Str p, Str q] doc = for_paths rt [Str q, Str p] doc"
    if "snd (for_paths rt [Str p, Str q] doc) = None"
      "snd (for_paths rt [Str q, Str p] doc) = None"
  proof -
    let ?P = "recurse rt (Obj doc) (split p)" and ?Q = "recurse rt (Obj doc) (split q)"
    obtain dp where dp: "fst ?P = Obj dp" using recurse_Obj_is_Obj by blast
    obtain dq where dq: "fst ?Q = Obj dq" using recurse_Obj_is_Obj by blast
    obtain dpq where dpq: "fst (recurse rt (Obj dp) (split q)) = Obj dpq"
      using recurse_Obj_is_Obj by blast
    obtain dqp where dqp: "fst (recurse rt (Obj dq) (split p)) = Obj dqp"
      using recurse_Obj_is_Obj by blast
    have sp: "stringify_at rt doc (Str p) = (dp, snd ?P)"
      using dp by (cases ?P) (simp add: stringify_at_def applyStringifyAtPath_def)
    have sq: "stringify_at rt doc (Str q) = (dq, snd ?Q)"
      using dq by (cases ?Q) (simp add: stringify_at_def applyStringifyAtPath_def)
    have spq: "stringify_at rt dp (Str q) = (dpq, snd (recurse rt (Obj dp) (split q)))"
      using dpq by (cases "recurse rt (Obj dp) (split q)")
        (simp add: stringify_at_def applyStringifyAtPath_def)
    have sqp: "stringify_at rt dq (Str p) = (dqp, snd (recurse rt (Obj dq) (split p)))"
      using dqp by (cases "recurse rt (Obj dq) (split p)")
        (simp add: stringify_at_def applyStringifyAtPath_def)
    from that(1) sp spq have np: "snd ?P = None" "snd (recurse rt (Obj dp) (split q)) = None"
      by (auto split: option.splits)
    from that(2) sq sqp have nq: "snd ?Q = None" "snd (recurse rt (Obj dq) (split p)) = None"
      by (auto split: option.splits)
    from 1 [of "Obj doc" "split p" "split q"] np nq dp dq
    have "recurse rt (Obj dp) (split q) = recurse rt (Obj dq) (split p)" by simp
    with dpq dqp have "dpq = dqp" by simp
    with sp sq spq sqp np nq show ?thesis by simp
  qed
  from 1 [of obj "split p" "split q"] 2 show ?thesis
    by (simp add: applyStringifyAtPath_def)
qed

theorem paths_commute_witness:
  "applyStringifyAtPath bson
     (fst (applyStringifyAtPath bson
        (Obj [(''owner'', ObjectId ''b2''), (''contributors'', Arr [Obj [(''_id'', ObjectId ''a1'')]])])
        (Str ''owner''))) (Str ''contributors._id'')
   = applyStringifyAtPath bson
     (fst (applyStringifyAtPath bson
        (Obj [(''owner'', ObjectId ''b2''), (''contributors'', Arr [Obj [(''_id'', ObjectId ''a1'')]])])
        (Str ''contributors._id''))) (Str ''owner'')
   \<and> for_paths bson [Str ''owner'', Str ''contributors._id'']
       [(''owner'', ObjectId ''b2''), (''contributors'', Arr [Obj [(''_id'', ObjectId ''a1'')]])]
     = for_paths bson [Str ''contributors._id'', Str ''owner'']
       [(''owner'', ObjectId ''b2''), (''contributors'', Arr [Obj [(''_id'', ObjectId ''a1'')]])]"
proof -
  let ?doc = "[(''owner'', ObjectId ''b2''), (''contributors'', Arr [Obj [(''_id'', ObjectId ''a1'')]])]"
  have "snd (applyStringifyAtPath bson (Obj ?doc) (Str ''owner'')) = None"
    "snd (applyStringifyAtPath bson (fst (applyStringifyAtPath bson (Obj ?doc) (Str ''owner'')))
       (Str ''contributors._id'')) = None"
    "snd (applyStringifyAtPath bson (Obj ?doc) (Str ''contributors._id'')) = None"
    "snd (applyStringifyAtPath bson
       (fst (applyStringifyAtPath bson (Obj ?doc) (Str ''contributors._id''))) (Str ''owner'')) = None"
    "snd (for_paths bson [Str ''owner'', Str ''contributors._id''] ?doc) = None"
    "snd (for_paths bson [Str ''contributors._id'', Str ''owner''] ?doc) = None"
    by (simp_all add: body_eval)
  with paths_commute [of bson "Obj ?doc" "''owner''" "''contributors._id''" ?doc]
  show ?thesis by blast
qed

text \<open>
C8 as stated fails: the path \<open>owner.__proto__\<close> raises as long as \<open>owner\<close> holds an
identifier, and no longer once the path \<open>owner\<close> has made it a string. In one order the
loop ends with the exception and \<open>owner\<close> is not rewritten; in the other it rewrites \<open>owner\<close>
and raises nothing.
\<close>

theorem paths_commute_counterexample:
  "for_paths bson [Str ''owner.__proto__'', Str ''owner''] [(''owner'', ObjectId ''b2'')]
     = ([(''owner'', ObjectId ''b2'')], Some (Thrown ''BSONError''))
   \<and> for_paths bson [Str ''owner'', Str ''owner.__proto__''] [(''owner'', ObjectId ''b2'')]
     = ([(''owner'', Str ''b2'')], None)"
  by (simp add: body_eval)

text \<open>
C9 (idempotence). Stringifying the primary identifier of a document twice gives what
stringifying it once gives, for one document and for the step over all documents when no
rename is asked for; rewriting a path a second time changes nothing in what the first
rewriting left, and ends as the first did, for every runtime.
\<close>

theorem stringification_idempotent:
  "stringify_id (stringify_id doc) = stringify_id doc
   \<and> identify_docs stringify None (identify_docs stringify None docs)
       = identify_docs stringify None docs
   \<and> fst (applyStringifyAtPath rt (fst (applyStringifyAtPath rt obj path)) path)
       = fst (applyStringifyAtPath rt obj path)
   \<and> applyStringifyAtPath rt (fst (applyStringifyAtPath rt obj path)) path
       = applyStringifyAtPath rt obj path"
proof -
  have 1: "stringify_id (stringify_id doc) = stringify_id doc" for doc
    by (simp add: stringify_id_def field_def update_conv' split: option.splits jsval.splits)
  have 2: "identify_docs stringify None (identify_docs stringify None docs)
       = identify_docs stringify None docs"
    by (simp add: identify_docs_def rename_id_def 1)
  have 3: "applyStringifyAtPath rt (fst (applyStringifyAtPath rt obj path)) path
       = applyStringifyAtPath rt obj path"
  proof (cases path)
    case (Str p)
    obtain c r where "recurse rt obj (split p) = (c, r)" by (cases "recurse rt obj (split p)")
    with recurse_again [OF this] Str show ?thesis by (simp add: applyStringifyAtPath_def)
  qed (simp_all add: applyStringifyAtPath_def)
  from 1 2 3 show ?thesis by simp
qed

text \<open>
C10 (rename without an identifier), as amended. Let the options ask
for a rename to a non-empty name other than \<open>_id\<close> and \<open>__proto__\<close>, and let the loops over
the paths of \<open>stringifyKeys\<close> (step 3) raise nothing, as they do when \<open>stringifyKeys\<close> is
omitted, empty or no array. Then the hook signals success, and every delivered document has
no field \<open>_id\<close> and has a field of the new name; for a document that had no \<open>_id\<close> this
field holds \<open>undefined\<close>. This holds for every runtime.
\<close>

theorem rename_creates_key:
  assumes "lean_of (read_options this) = Some opts"
    and "rename opts = Some name" and "name \<noteq> []" and "name \<noteq> ''_id''"
    and "name \<noteq> ''__proto__''"
  shows "(snd (stringify_docs rt (dflt (Arr []) (stringifyKeys opts)) [doc]) = None \<longrightarrow>
      (\<exists>doc'. mongooseLeanExtension rt this (Single doc) = (Single doc', [Continue_success])
        \<and> map_of doc' ''_id'' = None \<and> map_of doc' name \<noteq> None
        \<and> (map_of doc ''_id'' = None \<longrightarrow> map_of doc' name = Some Undef)))
    \<and> (snd (stringify_docs rt (dflt (Arr []) (stringifyKeys opts)) docs) = None \<longrightarrow>
      (\<exists>docs'. mongooseLeanExtension rt this (Many docs) = (Many docs', [Continue_success])
        \<and> length docs' = length docs
        \<and> (\<forall>i<length docs.
              map_of (docs' ! i) ''_id'' = None \<and> map_of (docs' ! i) name \<noteq> None
              \<and> (map_of (docs ! i) ''_id'' = None \<longrightarrow> map_of (docs' ! i) name = Some Undef))))
    \<and> ((\<forall>paths. stringifyKeys opts = Arr paths \<longrightarrow> paths = []) \<longrightarrow>
          snd (stringify_docs rt (dflt (Arr []) (stringifyKeys opts)) docs'') = None)"
proof -
  have all: "\<exists>ds'. process rt opts ds = (ds', None) \<and> length ds' = length ds
      \<and> (\<forall>i<length ds.
            map_of (ds' ! i) ''_id'' = None \<and> map_of (ds' ! i) name \<noteq> None
            \<and> (map_of (ds ! i) ''_id'' = None \<longrightarrow> map_of (ds' ! i) name = Some Undef))"
    if "snd (stringify_docs rt (dflt (Arr []) (stringifyKeys opts)) ds) = None" for ds
  proof -
    from process_calm_step [OF that] obtain ds' where p: "process rt opts ds = (ds', None)"
      by (cases "process rt opts ds") simp
    moreover from p have "length ds' = length ds"
      using process_length [of rt opts ds] by simp
    ultimately show ?thesis using process_no_id [OF assms(2-5) p] by blast
  qed
  have one: "\<exists>doc'. mongooseLeanExtension rt this (Single doc) = (Single doc', [Continue_success])
        \<and> map_of doc' ''_id'' = None \<and> map_of doc' name \<noteq> None
        \<and> (map_of doc ''_id'' = None \<longrightarrow> map_of doc' name = Some Undef)"
    if "snd (stringify_docs rt (dflt (Arr []) (stringifyKeys opts)) [doc]) = None"
  proof -
    from all [OF that] obtain ds
      where p: "process rt opts [doc] = (ds, None)" and len: "length ds = 1"
        and el: "map_of (ds ! 0) ''_id'' = None \<and> map_of (ds ! 0) name \<noteq> None
          \<and> (map_of doc ''_id'' = None \<longrightarrow> map_of (ds ! 0) name = Some Undef)"
      by auto
    from len obtain doc' where ds: "ds = [doc']" by (cases ds) simp_all
    with p have "mongooseLeanExtension rt this (Single doc) = (Single doc', [Continue_success])"
      by (simp add: hook_run [OF assms(1)])
    with el ds show ?thesis by simp
  qed
  have many: "\<exists>docs'. mongooseLeanExtension rt this (Many docs) = (Many docs', [Continue_success])
        \<and> length docs' = length docs
        \<and> (\<forall>i<length docs.
              map_of (docs' ! i) ''_id'' = None \<and> map_of (docs' ! i) name \<noteq> None
              \<and> (map_of (docs ! i) ''_id'' = None \<longrightarrow> map_of (docs' ! i) name = Some Undef))"
    if "snd (stringify_docs rt (dflt (Arr []) (stringifyKeys opts)) docs) = None"
  proof -
    from all [OF that] obtain docs'
      where p: "process rt opts docs = (docs', None)" and rest: "length docs' = length docs
        \<and> (\<forall>i<length docs.
              map_of (docs' ! i) ''_id'' = None \<and> map_of (docs' ! i) name \<noteq> None
              \<and> (map_of (docs ! i) ''_id'' = None \<longrightarrow> map_of (docs' ! i) name = Some Undef))"
      by blast
    from p have "mongooseLeanExtension rt this (Many docs) = (Many docs', [Continue_success])"
      by (simp add: hook_run [OF assms(1)])
    with rest show ?thesis by blast
  qed
  have none: "snd (stringify_docs rt (dflt (Arr []) (stringifyKeys opts)) docs'') = None"
    if "\<forall>paths. stringifyKeys opts = Arr paths \<longrightarrow> paths = []"
    using that by (cases "stringifyKeys opts") (simp_all add: stringify_docs_def dflt_def)
  from one many none show ?thesis by blast
qed

theorem rename_creates_key_witness:
  "mongooseLeanExtension bson
     \<lparr>mongooseOptions = Some \<lparr>lean = Some \<lparr>stringifyKeys = Arr [Str ''owner''],
        showVersion = Undef, stringifyId = Undef, rename = Some ''uid''\<rparr>\<rparr>, getOptions = None\<rparr>
     (Many [[(''name'', Str ''express'')]])
     = (Many [[(''name'', Str ''express''), (''uid'', Undef)]], [Continue_success])
   \<and> mongooseLeanExtension bson
     \<lparr>mongooseOptions = Some \<lparr>lean = Some \<lparr>stringifyKeys = Arr [Str ''owner''],
        showVersion = Undef, stringifyId = Undef, rename = Some ''uid''\<rparr>\<rparr>, getOptions = None\<rparr>
     (Single [(''name'', Str ''express'')])
     = (Single [(''name'', Str ''express''), (''uid'', Undef)], [Continue_success])
   \<and> snd (stringify_docs bson (dflt (Arr []) Undef) [[(''owner'', ObjectId ''b2'')]]) = None"
proof -
  let ?opts = "\<lparr>stringifyKeys = Arr [Str ''owner''], showVersion = Undef, stringifyId = Undef,
    rename = Some ''uid''\<rparr>"
  let ?none = "\<lparr>stringifyKeys = Undef, showVersion = Undef, stringifyId = Undef,
    rename = Some ''uid''\<rparr>"
  let ?q = "\<lparr>mongooseOptions = Some \<lparr>lean = Some ?opts\<rparr>, getOptions = None\<rparr>"
  let ?q' = "\<lparr>mongooseOptions = Some \<lparr>lean = Some ?none\<rparr>, getOptions = None\<rparr>"
  let ?doc = "[(''name'', Str ''express'')]"
  have opts: "lean_of (read_options ?q) = Some ?opts"
    by (simp add: read_options_def lean_of_def)
  have quiet: "snd (stringify_docs bson (dflt (Arr []) (stringifyKeys ?opts)) [?doc]) = None"
    by (simp add: body_eval)
  from rename_creates_key [OF opts, of "''uid''" bson ?doc "[?doc]" "[]"] quiet
  obtain doc' docs' where
    one: "mongooseLeanExtension bson ?q (Single ?doc) = (Single doc', [Continue_success])"
    and "map_of doc' ''uid'' = Some Undef"
    and many: "mongooseLeanExtension bson ?q (Many [?doc]) = (Many docs', [Continue_success])"
    and "length docs' = 1" and "map_of (docs' ! 0) ''uid'' = Some Undef"
    by auto
  moreover have "fst (mongooseLeanExtension bson ?q (Many [?doc]))
      = Many [[(''name'', Str ''express''), (''uid'', Undef)]]"
    by (simp add: hook_eval)
  moreover have "fst (mongooseLeanExtension bson ?q (Single ?doc))
      = Single [(''name'', Str ''express''), (''uid'', Undef)]"
    by (simp add: hook_eval)
  moreover have "lean_of (read_options ?q') = Some ?none"
    by (simp add: read_options_def lean_of_def)
  from rename_creates_key [OF this, of "''uid''" bson ?doc "[?doc]" "[[(''owner'', ObjectId ''b2'')]]"]
  have "snd (stringify_docs bson (dflt (Arr []) Undef) [[(''owner'', ObjectId ''b2'')]]) = None"
    by simp
  ultimately show ?thesis by simp
qed

text \<open>
C10 as stated fails in three ways. For the name \<open>_id\<close> the key is written and deleted
again, so a document without \<open>_id\<close> is delivered as it was, without a field of the name
asked for. For the name \<open>__proto__\<close> the assignment goes to the inherited setter, which
ignores \<open>undefined\<close>: no key is created. And when a path of \<open>stringifyKeys\<close> raises (here
\<open>owner.__proto__\<close>) the hook signals the error, not success, and has written no key.
\<close>

theorem rename_creates_key_counterexample:
  "mongooseLeanExtension bson
     \<lparr>mongooseOptions = Some \<lparr>lean = Some \<lparr>stringifyKeys = Undef, showVersion = Undef,
        stringifyId = Undef, rename = Some ''_id''\<rparr>\<rparr>, getOptions = None\<rparr>
     (Many [[(''name'', Str ''express'')]])
     = (Many [[(''name'', Str ''express'')]], [Continue_success])
   \<and> mongooseLeanExtension bson
     \<lparr>mongooseOptions = Some \<lparr>lean = Some \<lparr>stringifyKeys = Undef, showVersion = Undef,
        stringifyId = Undef, rename = Some ''__proto__''\<rparr>\<rparr>, getOptions = None\<rparr>
     (Many [[(''name'', Str ''express'')]])
     = (Many [[(''name'', Str ''express'')]], [Continue_success])
   \<and> mongooseLeanExtension bson
     \<lparr>mongooseOptions = Some \<lparr>lean = Some \<lparr>stringifyKeys = Arr [Str ''owner.__proto__''],
        showVersion = Undef, stringifyId = Undef, rename = Some ''uid''\<rparr>\<rparr>, getOptions = None\<rparr>
     (Many [[(''owner'', ObjectId ''b2'')]])
     = (Many [[(''owner'', ObjectId ''b2'')]], [Continue_with_error (Thrown ''BSONError'')])"
  by (simp add: hook_eval)

end
